theory Spec2Isabelle
  imports Main "HOL-Library.AList"
begin

section \<open>Strings\<close>

text \<open>
  Python strings are modelled as \<open>string\<close> (lists of 8-bit characters).  \<open>str.lower\<close> is
  modelled on the ASCII letters; every other character is left as it is.
\<close>

definition lower_char :: "char \<Rightarrow> char" where
  "lower_char c =
     (let n = (of_char c :: nat) in if 65 \<le> n \<and> n \<le> 90 then char_of (n + 32) else c)"

definition lower :: "string \<Rightarrow> string" where
  "lower s = map lower_char s"

text \<open>\<open>str(n)\<close> for a non-negative integer: its decimal digits.\<close>

definition digit :: "nat \<Rightarrow> char" where
  "digit d = char_of (48 + d)"

fun str :: "nat \<Rightarrow> string" where
  "str n = (if n < 10 then [digit n] else str (n div 10) @ [digit (n mod 10)])"

declare str.simps [simp del]

text \<open>\<open>s.rfind(c)\<close>: the index of the last occurrence of \<open>c\<close>, \<open>None\<close> for Python's -1.\<close>

primrec rfind :: "char \<Rightarrow> string \<Rightarrow> nat option" where
  "rfind c [] = None"
| "rfind c (x # xs) =
     (case rfind c xs of
        Some i \<Rightarrow> Some (Suc i)
      | None \<Rightarrow> if x = c then Some 0 else None)"

section \<open>Paths (pathlib, lexical)\<close>

text \<open>
  A \<open>Path\<close> is the list of its components below the root; the root is \<open>[]\<close>.  Paths are
  compared component by component, as pathlib does.
\<close>

type_synonym Path = "string list"

text \<open>\<open>Path.name\<close>: the last component, the empty string for the root.\<close>

definition path_name :: "Path \<Rightarrow> string" where
  "path_name p = (if p = [] then [] else last p)"

text \<open>
  \<open>Path.suffix\<close> and \<open>Path.stem\<close>: the name is cut at its last dot, unless that dot is the
  first or the last character of the name.
\<close>

definition path_suffix :: "Path \<Rightarrow> string" where
  "path_suffix p =
     (let name = path_name p in
      case rfind (CHR ''.'') name of
        None \<Rightarrow> []
      | Some i \<Rightarrow> if 0 < i \<and> i < length name - 1 then drop i name else [])"

definition path_stem :: "Path \<Rightarrow> string" where
  "path_stem p =
     (let name = path_name p in
      case rfind (CHR ''.'') name of
        None \<Rightarrow> name
      | Some i \<Rightarrow> if 0 < i \<and> i < length name - 1 then take i name else name)"

text \<open>\<open>Path.parents\<close>: the parent, its parent, ..., the root.\<close>

definition parents :: "Path \<Rightarrow> Path list" where
  "parents p = rev (map (\<lambda>n. take n p) [0..<length p])"

text \<open>
  \<open>path / text\<close> for a free text (a category's folder name): the text is split at the
  separator, empty and \<open>.\<close> components are dropped, and a text that starts with the
  separator is absolute and replaces the left operand.
\<close>

primrec split_sep :: "string \<Rightarrow> string list" where
  "split_sep [] = [[]]"
| "split_sep (c # cs) =
     (if c = CHR ''/'' then [] # split_sep cs
      else (case split_sep cs of [] \<Rightarrow> [[c]] | w # ws \<Rightarrow> (c # w) # ws))"

definition parse_parts :: "string \<Rightarrow> string list" where
  "parse_parts s = filter (\<lambda>w. w \<noteq> [] \<and> w \<noteq> ''.'') (split_sep s)"

definition is_absolute :: "string \<Rightarrow> bool" where
  "is_absolute s = (case s of [] \<Rightarrow> False | c # _ \<Rightarrow> c = CHR ''/'')"

definition joinpath :: "Path \<Rightarrow> string \<Rightarrow> Path" where
  "joinpath p s = (if is_absolute s then parse_parts s else p @ parse_parts s)"

section \<open>Core classes\<close>

record FileCategory =
  name :: string
  extensions :: "string list"
  folder_name :: string
  file_count :: nat
  enabled :: bool

definition FileCategory_init :: "string \<Rightarrow> string list \<Rightarrow> string \<Rightarrow> FileCategory" where
  "FileCategory_init nm exts folder =
     \<lparr>name = nm, extensions = map lower exts, folder_name = folder,
      file_count = 0, enabled = True\<rparr>"

definition matches_extension :: "FileCategory \<Rightarrow> string \<Rightarrow> bool" where
  "matches_extension c extension = (lower extension \<in> set (extensions c))"

definition increment_count :: "FileCategory \<Rightarrow> FileCategory" where
  "increment_count c = c\<lparr>file_count := file_count c + 1\<rparr>"

definition reset_count :: "FileCategory \<Rightarrow> FileCategory" where
  "reset_count c = c\<lparr>file_count := 0\<rparr>"

text \<open>
  \<open>get_category_for_extension\<close> returns a reference to a category object of the registry;
  the reference is modelled as the position of the category in the registry.  The loop
  walks the registry from the front; \<open>i\<close> is the position of the head of the rest.
\<close>

fun category_from :: "nat \<Rightarrow> FileCategory list \<Rightarrow> string \<Rightarrow> nat option" where
  "category_from i [] extension = None"
| "category_from i (category # rest) extension =
     (if enabled category \<and> matches_extension category extension then Some i
      else category_from (Suc i) rest extension)"

definition get_category_for_extension :: "FileCategory list \<Rightarrow> string \<Rightarrow> nat option" where
  "get_category_for_extension categories extension = category_from 0 categories extension"

section \<open>Filesystem\<close>

text \<open>
  The filesystem is the list of its entries, each a path with its kind, in the order a
  directory walk reports them; the root always exists and is a directory.  Paths are
  lexical: the model has no symbolic links and no \<open>..\<close> components.  Failures that the
  tree itself does not explain (permissions, a full disk, another device) are given by two
  predicates: \<open>stat_fails\<close> for reading the metadata of a path, \<open>write_fails\<close> for
  creating or renaming at a path.
\<close>

datatype kind = File | Dir

datatype exn =
    FileExistsError Path
  | NotADirectoryError Path
  | IsADirectoryError Path
  | FileNotFoundError Path
  | PermissionError Path
  | ShutilError Path

record filesystem =
  entries :: "(Path \<times> kind) list"
  stat_fails :: "Path \<Rightarrow> bool"
  write_fails :: "Path \<Rightarrow> bool"

definition lookup :: "filesystem \<Rightarrow> Path \<Rightarrow> kind option" where
  "lookup fs p = (if p = [] then Some Dir else map_of (entries fs) p)"

definition exists :: "filesystem \<Rightarrow> Path \<Rightarrow> bool" where
  "exists fs p = (lookup fs p \<noteq> None)"

definition is_file :: "filesystem \<Rightarrow> Path \<Rightarrow> bool" where
  "is_file fs p = (lookup fs p = Some File)"

definition is_dir :: "filesystem \<Rightarrow> Path \<Rightarrow> bool" where
  "is_dir fs p = (lookup fs p = Some Dir)"

text \<open>
  \<open>Path.mkdir(parents=True, exist_ok=True)\<close>.  An existing directory is left alone; any
  other existing entry, or a regular file among the ancestors, raises; missing parents are
  created first, and they stay when the creation of the directory itself then fails.  The
  result is the exception, if any, and the filesystem as the call leaves it.
\<close>

function mkdir :: "filesystem \<Rightarrow> Path \<Rightarrow> exn option \<times> filesystem" where
  "mkdir fs p =
     (if is_dir fs p then (None, fs)
      else if exists fs p then (Some (FileExistsError p), fs)
      else if list_ex (is_file fs) (parents p) then (Some (NotADirectoryError p), fs)
      else (case mkdir fs (butlast p) of
              (Some e, fs') \<Rightarrow> (Some e, fs')
            | (None, fs') \<Rightarrow>
                if write_fails fs p then (Some (PermissionError p), fs')
                else (None, fs'\<lparr>entries := entries fs' @ [(p, Dir)]\<rparr>)))"
  by pat_completeness auto
termination
  by (relation "measure (\<lambda>(fs, p). length p)") (auto simp: is_dir_def lookup_def split: if_splits)

declare mkdir.simps [simp del]

text \<open>
  \<open>os.rename\<close> of a regular file, and \<open>shutil.move\<close> on top of it: a destination that is
  an existing directory receives the file under its own name; an existing regular file at
  the destination is replaced.  The source must be a regular file, the only kind of source
  the worker passes.
\<close>

definition os_rename :: "filesystem \<Rightarrow> Path \<Rightarrow> Path \<Rightarrow> exn + filesystem" where
  "os_rename fs src dst =
     (if write_fails fs src \<or> write_fails fs dst then Inl (PermissionError dst)
      else if \<not> is_dir fs (butlast dst) then Inl (FileNotFoundError dst)
      else if is_dir fs dst then Inl (IsADirectoryError dst)
      else Inr (fs\<lparr>entries :=
                  filter (\<lambda>e. fst e \<noteq> src \<and> fst e \<noteq> dst) (entries fs) @ [(dst, File)]\<rparr>))"

definition shutil_move :: "filesystem \<Rightarrow> Path \<Rightarrow> Path \<Rightarrow> exn + filesystem" where
  "shutil_move fs src dst =
     (if \<not> is_file fs src then Inl (FileNotFoundError src)
      else if is_dir fs dst then
        (let real_dst = dst @ [path_name src] in
         if exists fs real_dst then Inl (ShutilError real_dst)
         else os_rename fs src real_dst)
      else os_rename fs src dst)"

text \<open>\<open>root.rglob("*")\<close>: every entry below \<open>root\<close>, at any depth.\<close>

definition rglob :: "filesystem \<Rightarrow> Path \<Rightarrow> Path list" where
  "rglob fs root = filter (\<lambda>p. root \<in> set (parents p)) (map fst (entries fs))"

text \<open>
  \<open>FileInfo\<close>: the attribute \<open>name\<close> is the field \<open>file_name\<close>; size and modification time
  are read by \<open>stat\<close>, which may raise, and are used nowhere in the worker.
\<close>

record FileInfo =
  path :: Path
  file_name :: string
  extension :: string

definition FileInfo_init :: "filesystem \<Rightarrow> Path \<Rightarrow> exn + FileInfo" where
  "FileInfo_init fs file_path =
     (if stat_fails fs file_path then Inl (PermissionError file_path)
      else Inr \<lparr>path = file_path, file_name = path_name file_path,
                extension = lower (path_suffix file_path)\<rparr>)"

section \<open>Signals\<close>

record summary =
  total_files :: nat
  organized :: nat
  uncategorized :: nat
  categories :: "(string \<times> nat) list"

text \<open>
  A signal carries the arguments of its format string; the \<open>render\<close> functions below give
  the text.  The progress value \<open>int((i / n) * 100)\<close> is floating-point arithmetic and is
  kept as the pair \<open>Ratio i n\<close>.
\<close>

datatype message =
    MsgStarting bool
  | MsgSource Path
  | MsgDestination Path
  | MsgNoFiles
  | MsgFound nat
  | MsgDryMove string string
  | MsgMoved string string
  | MsgErrorMoving string exn
  | MsgMovedUncategorized string
  | MsgErrorMovingUncategorized string exn
  | MsgComplete nat

datatype status_text = StScanning | StProcessing string | StComplete

datatype error_text = ErrScanning exn | ErrUncaught exn

datatype progress = Ratio nat nat | Percent nat

datatype event =
    ProgressUpdated progress
  | StatusUpdated status_text
  | LogUpdated message
  | Finished summary
  | ErrorOccurred error_text

definition str_path :: "Path \<Rightarrow> string" where
  "str_path p = (if p = [] then ''/'' else concat (map (\<lambda>c. ''/'' @ c) p))"

definition quoted :: "string \<Rightarrow> string" where
  "quoted s = [CHR 0x27] @ s @ [CHR 0x27]"

fun str_exn :: "exn \<Rightarrow> string" where
  "str_exn (FileExistsError p) = ''[Errno 17] File exists: '' @ quoted (str_path p)"
| "str_exn (NotADirectoryError p) = ''[Errno 20] Not a directory: '' @ quoted (str_path p)"
| "str_exn (IsADirectoryError p) = ''[Errno 21] Is a directory: '' @ quoted (str_path p)"
| "str_exn (FileNotFoundError p) = ''[Errno 2] No such file or directory: '' @ quoted (str_path p)"
| "str_exn (PermissionError p) = ''[Errno 13] Permission denied: '' @ quoted (str_path p)"
| "str_exn (ShutilError p) = ''Destination path '' @ quoted (str_path p) @ '' already exists''"

definition arrow :: string where
  "arrow = [CHR 0x20, CHR 0xE2, CHR 0x86, CHR 0x92, CHR 0x20]"

fun render_message :: "message \<Rightarrow> string" where
  "render_message (MsgStarting dry) = ''Starting '' @ (if dry then ''dry run'' else ''organization'')"
| "render_message (MsgSource p) = ''Source: '' @ str_path p"
| "render_message (MsgDestination p) = ''Destination: '' @ str_path p"
| "render_message MsgNoFiles = ''No files found to organize''"
| "render_message (MsgFound n) = ''Found '' @ str n @ '' files''"
| "render_message (MsgDryMove f c) = ''[DRY] Would move '' @ f @ arrow @ c"
| "render_message (MsgMoved f c) = ''Moved '' @ f @ arrow @ c"
| "render_message (MsgErrorMoving f e) = ''Error moving '' @ f @ '': '' @ str_exn e"
| "render_message (MsgMovedUncategorized f) = ''Moved '' @ f @ arrow @ ''Uncategorized''"
| "render_message (MsgErrorMovingUncategorized f e) =
     ''Error moving uncategorized file '' @ f @ '': '' @ str_exn e"
| "render_message (MsgComplete n) = ''Organization complete. Processed '' @ str n @ '' files.''"

fun render_status :: "status_text \<Rightarrow> string" where
  "render_status StScanning = ''Scanning files...''"
| "render_status (StProcessing f) = ''Processing: '' @ f"
| "render_status StComplete = ''Complete!''"

fun render_error :: "error_text \<Rightarrow> string" where
  "render_error (ErrScanning e) = ''Error scanning files: '' @ str_exn e"
| "render_error (ErrUncaught e) = str_exn e"

section \<open>Decimal numerals are injective\<close>

lemma digit_inj: "a < 10 \<Longrightarrow> b < 10 \<Longrightarrow> digit a = digit b \<Longrightarrow> a = b"
  by (simp add: digit_def)

lemma str_nonempty: "str n \<noteq> []"
  by (subst str.simps) simp

lemma length_str_one: "length (str n) = 1 \<longleftrightarrow> n < 10"
proof (cases "n < 10")
  case True
  then show ?thesis by (subst str.simps) simp
next
  case False
  have "str (n div 10) \<noteq> []" by (rule str_nonempty)
  then have "0 < length (str (n div 10))" by simp
  with False show ?thesis by (subst str.simps) simp
qed

lemma str_inj: "str n = str m \<Longrightarrow> n = m"
proof (induction n arbitrary: m rule: str.induct)
  case (1 n)
  show ?case
  proof (cases "n < 10")
    case True
    then have "length (str n) = 1" using length_str_one[of n] by simp
    with "1.prems" have m: "m < 10" using length_str_one[of m] by simp
    from True m "1.prems" have "[digit n] = [digit m]"
      by (simp add: str.simps[of n] str.simps[of m])
    with True m show ?thesis by (simp add: digit_inj)
  next
    case False
    then have "length (str n) \<noteq> 1" using length_str_one[of n] by simp
    with "1.prems" have m: "\<not> m < 10" using length_str_one[of m] by simp
    from False m "1.prems"
    have "str (n div 10) @ [digit (n mod 10)] = str (m div 10) @ [digit (m mod 10)]"
      by (simp add: str.simps[of n] str.simps[of m])
    then have a: "str (n div 10) = str (m div 10)" and b: "digit (n mod 10) = digit (m mod 10)"
      by simp_all
    from "1.IH"[OF False a] have d: "n div 10 = m div 10" .
    from b have e: "n mod 10 = m mod 10" by (simp add: digit_inj)
    have "n = 10 * (n div 10) + n mod 10" by simp
    also have "\<dots> = 10 * (m div 10) + m mod 10" using d e by simp
    also have "\<dots> = m" by simp
    finally show ?thesis .
  qed
qed

section \<open>Collision-free destination names\<close>

text \<open>The name \<open>f"{base_name}_{counter}{extension}"\<close> in the folder \<open>dir\<close>.\<close>

definition numbered :: "Path \<Rightarrow> string \<Rightarrow> nat \<Rightarrow> string \<Rightarrow> Path" where
  "numbered dir base_name counter ext =
     dir @ [base_name @ ''_'' @ str counter @ ext]"

lemma numbered_inj: "numbered dir b n e = numbered dir b m e \<Longrightarrow> n = m"
  by (simp add: numbered_def str_inj)

lemma exists_iff: "exists fs p \<longleftrightarrow> p = [] \<or> p \<in> fst ` set (entries fs)"
  using map_of_eq_None_iff[of "entries fs" p] by (auto simp: exists_def lookup_def)

lemma finite_taken: "finite {n. exists fs (numbered dir b n e)}"
proof -
  have inj: "inj (\<lambda>n. numbered dir b n e)"
    by (rule injI) (rule numbered_inj)
  have "finite (insert [] (fst ` set (entries fs)))" by simp
  then have "finite ((\<lambda>n. numbered dir b n e) -` insert [] (fst ` set (entries fs)))"
    using inj by (rule finite_vimageI)
  moreover have "{n. exists fs (numbered dir b n e)}
      \<subseteq> (\<lambda>n. numbered dir b n e) -` insert [] (fst ` set (entries fs))"
    by (auto simp: exists_iff)
  ultimately show ?thesis by (rule rev_finite_subset)
qed

definition taken_from :: "filesystem \<Rightarrow> Path \<Rightarrow> string \<Rightarrow> string \<Rightarrow> nat \<Rightarrow> nat set" where
  "taken_from fs dir b e c = {n. c \<le> n \<and> exists fs (numbered dir b n e)}"

lemma finite_taken_from: "finite (taken_from fs dir b e c)"
  unfolding taken_from_def by (rule rev_finite_subset[OF finite_taken]) auto

lemma taken_from_step:
  "card (taken_from fs dir b e (Suc c)) + (if exists fs (numbered dir b c e) then 1 else 0)
     = card (taken_from fs dir b e c)"
proof (cases "exists fs (numbered dir b c e)")
  case True
  have eq: "taken_from fs dir b e c = insert c (taken_from fs dir b e (Suc c))"
    using True by (auto simp: taken_from_def Suc_le_eq le_less)
  have "c \<notin> taken_from fs dir b e (Suc c)" by (simp add: taken_from_def)
  then show ?thesis using True by (simp add: eq finite_taken_from)
next
  case False
  have eq: "taken_from fs dir b e c = taken_from fs dir b e (Suc c)"
    using False by (auto simp: taken_from_def Suc_le_eq le_less)
  show ?thesis using False by (simp add: eq)
qed

text \<open>
  The loop \<open>while destination.exists()\<close> of \<open>move_file\<close> and of
  \<open>handle_uncategorized_files\<close>, on the loop variables \<open>destination\<close> and \<open>counter\<close>.
  It ends because the numbered names are pairwise different and the filesystem is finite.
\<close>

function free_destination ::
  "filesystem \<Rightarrow> Path \<Rightarrow> string \<Rightarrow> string \<Rightarrow> Path \<Rightarrow> nat \<Rightarrow> Path" where
  "free_destination fs dir base_name ext destination counter =
     (if exists fs destination
      then free_destination fs dir base_name ext
             (numbered dir base_name counter ext) (counter + 1)
      else destination)"
  by pat_completeness auto
termination
proof (relation "measure (\<lambda>(fs, dir, b, e, d, c).
          2 * card (taken_from fs dir b e c) + (if exists fs d then 1 else 0))", goal_cases)
  case 1
  show ?case by simp
next
  case (2 fs dir b e d c)
  then show ?case
    using taken_from_step[of fs dir b e c] by (auto split: if_splits)
qed

declare free_destination.simps [simp del]

section \<open>The worker\<close>

text \<open>
  The attribute \<open>should_stop\<close> is written by another thread; \<open>should_stop w k\<close> is the
  value the worker finds at its \<open>k\<close>-th read of the attribute in a run.  The category
  objects are mutable and live in the state.
\<close>

record FileOrganizerWorker =
  source_dir :: Path
  dest_dir :: Path
  dry_run :: bool
  should_stop :: "nat \<Rightarrow> bool"

definition FileOrganizerWorker_init ::
  "Path \<Rightarrow> Path option \<Rightarrow> bool \<Rightarrow> (nat \<Rightarrow> bool) \<Rightarrow> FileOrganizerWorker" where
  "FileOrganizerWorker_init source dest dry stop =
     \<lparr>source_dir = source,
      dest_dir = (case dest of Some d \<Rightarrow> d | None \<Rightarrow> source @ [''Organized'']),
      dry_run = dry, should_stop = stop\<rparr>"

text \<open>The state a run works on: \<open>self.categories\<close>, the filesystem, the signals emitted.\<close>

record run_state =
  cats :: "FileCategory list"
  fsys :: filesystem
  trace :: "event list"

definition emit :: "event \<Rightarrow> run_state \<Rightarrow> run_state" where
  "emit e st = st\<lparr>trace := trace st @ [e]\<rparr>"

text \<open>
  The choice of the destination in a folder, the same lines in \<open>move_file\<close> and in
  \<open>handle_uncategorized_files\<close>: \<open>destination = folder / file_info.name\<close>,
  \<open>counter = 1\<close>, \<open>base_name = file_info.path.stem\<close>,
  \<open>extension = file_info.path.suffix\<close>, then the loop.  A file name is one path
  component, so \<open>folder / file_info.name\<close> appends it.
\<close>

definition choose_destination :: "filesystem \<Rightarrow> Path \<Rightarrow> FileInfo \<Rightarrow> Path" where
  "choose_destination fs folder file_info =
     free_destination fs folder (path_stem (path file_info)) (path_suffix (path file_info))
       (folder @ [file_name file_info]) 1"

text \<open>\<open>move_file\<close>; \<open>ci\<close> is the reference to the category.\<close>

definition move_file ::
  "FileOrganizerWorker \<Rightarrow> FileInfo \<Rightarrow> nat \<Rightarrow> run_state \<Rightarrow> bool \<times> run_state" where
  "move_file w file_info ci st =
     (let category = cats st ! ci;
          category_path = joinpath (dest_dir w) (folder_name category)
      in case mkdir (fsys st) category_path of
           (Some e, fs1) \<Rightarrow>
             (False, emit (LogUpdated (MsgErrorMoving (file_name file_info) e)) (st\<lparr>fsys := fs1\<rparr>))
         | (None, fs1) \<Rightarrow>
             (let destination = choose_destination fs1 category_path file_info
              in case shutil_move fs1 (path file_info) destination of
                   Inl e \<Rightarrow>
                     (False, emit (LogUpdated (MsgErrorMoving (file_name file_info) e))
                               (st\<lparr>fsys := fs1\<rparr>))
                 | Inr fs2 \<Rightarrow>
                     (True, emit (LogUpdated (MsgMoved (file_name file_info) (folder_name category)))
                              (st\<lparr>fsys := fs2,
                                  cats := (cats st)[ci := increment_count category]\<rparr>))))"

text \<open>\<open>handle_uncategorized_files\<close>: the loop over the files, then the function.\<close>

fun move_uncategorized :: "Path \<Rightarrow> FileInfo list \<Rightarrow> run_state \<Rightarrow> run_state" where
  "move_uncategorized uncategorized_path [] st = st"
| "move_uncategorized uncategorized_path (file_info # rest) st =
     (let destination = choose_destination (fsys st) uncategorized_path file_info
      in case shutil_move (fsys st) (path file_info) destination of
           Inl e \<Rightarrow>
             move_uncategorized uncategorized_path rest
               (emit (LogUpdated (MsgErrorMovingUncategorized (file_name file_info) e)) st)
         | Inr fs2 \<Rightarrow>
             move_uncategorized uncategorized_path rest
               (emit (LogUpdated (MsgMovedUncategorized (file_name file_info))) (st\<lparr>fsys := fs2\<rparr>)))"

definition handle_uncategorized_files ::
  "FileOrganizerWorker \<Rightarrow> FileInfo list \<Rightarrow> run_state \<Rightarrow> exn option \<times> run_state" where
  "handle_uncategorized_files w uncategorized_files st =
     (if uncategorized_files = [] then (None, st)
      else
        (let uncategorized_path = dest_dir w @ [''Uncategorized'']
         in case mkdir (fsys st) uncategorized_path of
              (Some e, fs1) \<Rightarrow> (Some e, st\<lparr>fsys := fs1\<rparr>)
            | (None, fs1) \<Rightarrow>
                (None, move_uncategorized uncategorized_path uncategorized_files
                         (st\<lparr>fsys := fs1\<rparr>))))"

text \<open>
  The scan loop of \<open>organize_files\<close>: one read of \<open>should_stop\<close> per entry of the walk;
  \<open>i\<close> counts the entries seen.
\<close>

datatype scan_result = ScanStopped | ScanError exn | Scanned "FileInfo list"

fun scan_files ::
  "FileOrganizerWorker \<Rightarrow> filesystem \<Rightarrow> nat \<Rightarrow> Path list \<Rightarrow> FileInfo list \<Rightarrow> scan_result" where
  "scan_files w fs i [] files = Scanned files"
| "scan_files w fs i (file_path # rest) files =
     (if should_stop w i then ScanStopped
      else if is_file fs file_path then
        (case FileInfo_init fs file_path of
           Inl e \<Rightarrow> ScanError e
         | Inr file_info \<Rightarrow> scan_files w fs (Suc i) rest (files @ [file_info]))
      else scan_files w fs (Suc i) rest files)"

text \<open>\<open>for category in self.categories: if category.enabled: category.reset_count()\<close>\<close>

definition reset_counts :: "FileCategory list \<Rightarrow> FileCategory list" where
  "reset_counts cs = map (\<lambda>category. if enabled category then reset_count category else category) cs"

text \<open>
  The body of the processing loop for one file, after the read of \<open>should_stop\<close>; the
  locals \<open>organized_count\<close> and \<open>uncategorized_files\<close> travel with the state.
\<close>

type_synonym loop_state = "run_state \<times> nat \<times> FileInfo list"

definition process_file ::
  "FileOrganizerWorker \<Rightarrow> nat \<Rightarrow> nat \<Rightarrow> FileInfo \<Rightarrow> loop_state \<Rightarrow> loop_state" where
  "process_file w n i file_info ls =
     (case ls of (st, organized_count, uncategorized_files) \<Rightarrow>
        (let st1 = emit (StatusUpdated (StProcessing (file_name file_info)))
                     (emit (ProgressUpdated (Ratio i n)) st)
         in if dest_dir w \<in> set (parents (path file_info))
            then (st1, organized_count, uncategorized_files)
            else
              (case get_category_for_extension (cats st1) (extension file_info) of
                 Some ci \<Rightarrow>
                   if enabled (cats st1 ! ci) then
                     (if dry_run w then
                        (emit (LogUpdated (MsgDryMove (file_name file_info)
                                             (folder_name (cats st1 ! ci))))
                           (st1\<lparr>cats := (cats st1)[ci := increment_count (cats st1 ! ci)]\<rparr>),
                         organized_count + 1, uncategorized_files)
                      else
                        (case move_file w file_info ci st1 of
                           (True, st2) \<Rightarrow> (st2, organized_count + 1, uncategorized_files)
                         | (False, st2) \<Rightarrow> (st2, organized_count, uncategorized_files)))
                   else (st1, organized_count, uncategorized_files @ [file_info])
               | None \<Rightarrow> (st1, organized_count, uncategorized_files @ [file_info]))))"

text \<open>
  The processing loop; \<open>k\<close> is the number of reads of \<open>should_stop\<close> before the loop,
  \<open>n\<close> is \<open>len(files)\<close>.  The first component of the result tells whether the loop
  returned at a set \<open>should_stop\<close>.
\<close>

fun process_files ::
  "FileOrganizerWorker \<Rightarrow> nat \<Rightarrow> nat \<Rightarrow> nat \<Rightarrow> FileInfo list \<Rightarrow> loop_state \<Rightarrow> bool \<times> loop_state" where
  "process_files w k n i [] ls = (False, ls)"
| "process_files w k n i (file_info # rest) ls =
     (if should_stop w (k + i) then (True, ls)
      else process_files w k n (Suc i) rest (process_file w n i file_info ls))"

text \<open>
  The dictionary \<open>{cat.name: cat.file_count for cat in self.categories if cat.file_count > 0}\<close>:
  a later category of the same name replaces the value and keeps the position.
\<close>

definition summary_categories :: "FileCategory list \<Rightarrow> (string \<times> nat) list" where
  "summary_categories cs =
     fold (\<lambda>cat d. if file_count cat > 0 then AList.update (name cat) (file_count cat) d else d)
       cs []"

text \<open>
  \<open>organize_files\<close>.  \<open>Inl e\<close> is the exception \<open>e\<close> leaving the function; \<open>Inr\<close> is a
  return: after the summary, at a set \<open>should_stop\<close>, or after a failed scan.
\<close>

datatype outcome = Completed | Aborted | Failed

definition finalize ::
  "FileOrganizerWorker \<Rightarrow> nat \<Rightarrow> loop_state \<Rightarrow> (exn + outcome) \<times> run_state" where
  "finalize w n ls =
     (case ls of (st, organized_count, uncategorized_files) \<Rightarrow>
        (case (if uncategorized_files \<noteq> [] \<and> \<not> dry_run w
               then handle_uncategorized_files w uncategorized_files st else (None, st)) of
           (Some e, st1) \<Rightarrow> (Inl e, st1)
         | (None, st1) \<Rightarrow>
             (let st2 = emit (StatusUpdated StComplete) (emit (ProgressUpdated (Percent 100)) st1);
                  summ = \<lparr>total_files = n, organized = organized_count,
                          uncategorized = length uncategorized_files,
                          categories = summary_categories (cats st2)\<rparr>
              in (Inr Completed, emit (Finished summ) (emit (LogUpdated (MsgComplete organized_count)) st2)))))"

definition process_scanned ::
  "FileOrganizerWorker \<Rightarrow> nat \<Rightarrow> FileInfo list \<Rightarrow> run_state \<Rightarrow> (exn + outcome) \<times> run_state" where
  "process_scanned w k files st =
     (if files = [] then
        (Inr Completed,
         emit (Finished \<lparr>total_files = 0, organized = 0, uncategorized = 0, categories = []\<rparr>)
           (emit (LogUpdated MsgNoFiles) st))
      else
        (let st1 = emit (LogUpdated (MsgFound (length files))) st
         in case (if \<not> dry_run w then mkdir (fsys st1) (dest_dir w) else (None, fsys st1)) of
              (Some e, fs1) \<Rightarrow> (Inl e, st1\<lparr>fsys := fs1\<rparr>)
            | (None, fs1) \<Rightarrow>
                (case process_files w k (length files) 0 files
                        (st1\<lparr>fsys := fs1, cats := reset_counts (cats st1)\<rparr>, 0, []) of
                   (True, ls) \<Rightarrow> (Inr Aborted, fst ls)
                 | (False, ls) \<Rightarrow> finalize w (length files) ls)))"

definition organize_files ::
  "FileOrganizerWorker \<Rightarrow> run_state \<Rightarrow> (exn + outcome) \<times> run_state" where
  "organize_files w st =
     (let st1 = emit (StatusUpdated StScanning)
                  (emit (LogUpdated (MsgDestination (dest_dir w)))
                     (emit (LogUpdated (MsgSource (source_dir w)))
                        (emit (LogUpdated (MsgStarting (dry_run w))) st)));
          walk = rglob (fsys st1) (source_dir w)
      in case scan_files w (fsys st1) 0 walk [] of
           ScanStopped \<Rightarrow> (Inr Aborted, st1)
         | ScanError e \<Rightarrow> (Inr Failed, emit (ErrorOccurred (ErrScanning e)) st1)
         | Scanned files \<Rightarrow> process_scanned w (length walk) files st1)"

text \<open>\<open>run\<close>: an exception that leaves \<open>organize_files\<close> is reported by \<open>error_occurred\<close>.\<close>

definition run :: "FileOrganizerWorker \<Rightarrow> run_state \<Rightarrow> outcome \<times> run_state" where
  "run w st =
     (case organize_files w st of
        (Inl e, st1) \<Rightarrow> (Failed, emit (ErrorOccurred (ErrUncaught e)) st1)
      | (Inr out, st1) \<Rightarrow> (out, st1))"

section \<open>Classification is first-match-wins\<close>

lemma category_from_Some_iff:
  "category_from i cs e = Some k \<longleftrightarrow>
     i \<le> k \<and> k - i < length cs \<and>
     enabled (cs ! (k - i)) \<and> matches_extension (cs ! (k - i)) e \<and>
     (\<forall>j<k - i. \<not> (enabled (cs ! j) \<and> matches_extension (cs ! j) e))"
proof (induction cs arbitrary: i)
  case Nil
  show ?case by simp
next
  case (Cons c cs)
  show ?case
  proof (cases "enabled c \<and> matches_extension c e")
    case True
    have "i = k" if "i \<le> k" and "\<forall>j<k - i. \<not> (enabled ((c # cs) ! j) \<and> matches_extension ((c # cs) ! j) e)"
    proof (rule ccontr)
      assume "i \<noteq> k"
      with that(1) have "0 < k - i" by simp
      with that(2) have "\<not> (enabled ((c # cs) ! 0) \<and> matches_extension ((c # cs) ! 0) e)" by blast
      with True show False by simp
    qed
    with True show ?thesis by auto
  next
    case False
    have step: "category_from i (c # cs) e = category_from (Suc i) cs e"
      using False by auto
    show ?thesis
    proof (cases "k \<le> i")
      case True
      then show ?thesis using False unfolding step Cons.IH by auto
    next
      case gt: False
      then have eq: "k - i = Suc (k - Suc i)" by simp
      show ?thesis using False gt unfolding step Cons.IH eq
        by (auto simp: less_Suc_eq_0_disj)
    qed
  qed
qed

lemma category_from_None_iff:
  "category_from i cs e = None \<longleftrightarrow>
     (\<forall>c\<in>set cs. \<not> (enabled c \<and> matches_extension c e))"
  by (induction cs arbitrary: i) auto

lemma category_from_cong:
  "map (\<lambda>c. (enabled c, extensions c)) cs = map (\<lambda>c. (enabled c, extensions c)) cs' \<Longrightarrow>
   category_from i cs e = category_from i cs' e"
proof (induction cs arbitrary: cs' i)
  case Nil
  then show ?case by simp
next
  case (Cons c cs)
  then obtain c' rest where cs': "cs' = c' # rest" by (cases cs') auto
  with Cons.prems have h: "enabled c = enabled c'" "extensions c = extensions c'"
    and t: "map (\<lambda>c. (enabled c, extensions c)) cs = map (\<lambda>c. (enabled c, extensions c)) rest"
    by simp_all
  show ?case using Cons.IH[OF t] h by (simp add: cs' matches_extension_def)
qed

definition two_logs :: "FileCategory list" where
  "two_logs = [FileCategory_init ''Logs'' [''.log''] ''Logs'',
               FileCategory_init ''Text'' [''.txt'', ''.LOG''] ''Text'']"

text \<open>
  Claim C1.  \<open>get_category_for_extension\<close> returns the first category, in registry order,
  that is enabled and whose extension list contains the lower-cased extension, and nothing
  when there is none.  So when two enabled categories declare the same extension, the result
  is never the later one.  The result is a function of the enabled flags and the extension
  lists of the registry alone: two registries that agree on them (as the registry before and
  after a run, which changes counts only) classify alike.
\<close>
theorem get_category_for_extension_first_match:
  "(get_category_for_extension cs e = Some k \<longleftrightarrow>
      k < length cs \<and> enabled (cs ! k) \<and> lower e \<in> set (extensions (cs ! k)) \<and>
      (\<forall>j<k. \<not> (enabled (cs ! j) \<and> lower e \<in> set (extensions (cs ! j)))))
   \<and> (get_category_for_extension cs e = None \<longleftrightarrow>
      (\<forall>c\<in>set cs. \<not> (enabled c \<and> lower e \<in> set (extensions c))))
   \<and> (map (\<lambda>c. (enabled c, extensions c)) cs = map (\<lambda>c. (enabled c, extensions c)) cs' \<longrightarrow>
      get_category_for_extension cs e = get_category_for_extension cs' e)"
  unfolding get_category_for_extension_def
  using category_from_Some_iff[of 0 cs e k] category_from_None_iff[of 0 cs e]
    category_from_cong[of cs cs' 0 e]
  by (simp add: matches_extension_def)

theorem get_category_for_extension_first_match_witness:
  "get_category_for_extension two_logs ''.LOG'' = Some 0
   \<and> enabled (two_logs ! 1) \<and> lower ''.LOG'' \<in> set (extensions (two_logs ! 1))
   \<and> get_category_for_extension two_logs ''.LOG''
       = get_category_for_extension (map increment_count two_logs) ''.LOG''"
proof -
  have r: "0 < length two_logs \<and> enabled (two_logs ! 0)
      \<and> lower ''.LOG'' \<in> set (extensions (two_logs ! 0))
      \<and> (\<forall>j<0. \<not> (enabled (two_logs ! j) \<and> lower ''.LOG'' \<in> set (extensions (two_logs ! j))))"
    by (simp add: two_logs_def FileCategory_init_def lower_def lower_char_def char_of_eq_iff)
  have s: "enabled (two_logs ! 1) \<and> lower ''.LOG'' \<in> set (extensions (two_logs ! 1))"
    by (simp add: two_logs_def FileCategory_init_def lower_def lower_char_def char_of_eq_iff)
  have m: "map (\<lambda>c. (enabled c, extensions c)) two_logs
      = map (\<lambda>c. (enabled c, extensions c)) (map increment_count two_logs)"
    by (simp add: increment_count_def)
  show ?thesis
    using get_category_for_extension_first_match
            [of two_logs "''.LOG''" 0 "map increment_count two_logs"] r s m
    by blast
qed

section \<open>Extension matching ignores letter case\<close>




definition plain_fs :: "(Path \<times> kind) list \<Rightarrow> filesystem" where
  "plain_fs es = \<lparr>entries = es, stat_fails = (\<lambda>p. False), write_fails = (\<lambda>p. False)\<rparr>"


section \<open>Collision naming never overwrites\<close>






















section \<open>One step of the processing loop\<close>

definition skipped :: "FileOrganizerWorker \<Rightarrow> FileInfo \<Rightarrow> bool" where
  "skipped w f = (dest_dir w \<in> set (parents (path f)))"

fun is_move_error :: "event \<Rightarrow> bool" where
  "is_move_error (LogUpdated (MsgErrorMoving f e)) = True"
| "is_move_error ev = False"

definition move_errors :: "event list \<Rightarrow> nat" where
  "move_errors tr = length (filter is_move_error tr)"

lemma move_file_cases:
  assumes "move_file w f ci st = (b, st')"
  obtains
    (ok) "b" "cats st' = (cats st)[ci := increment_count (cats st ! ci)]"
      "trace st' = trace st @ [LogUpdated (MsgMoved (file_name f) (folder_name (cats st ! ci)))]"
  | (fail) e where "\<not> b" "cats st' = cats st"
      "trace st' = trace st @ [LogUpdated (MsgErrorMoving (file_name f) e)]"
proof -
  let ?dir = "joinpath (dest_dir w) (folder_name (cats st ! ci))"
  obtain r fs1 where m: "mkdir (fsys st) ?dir = (r, fs1)" by (cases "mkdir (fsys st) ?dir")
  show ?thesis
  proof (cases r)
    case (Some e)
    with assms m have "\<not> b" "cats st' = cats st"
      "trace st' = trace st @ [LogUpdated (MsgErrorMoving (file_name f) e)]"
      by (auto simp: move_file_def Let_def emit_def)
    then show ?thesis by (rule fail)
  next
    case None
    show ?thesis
    proof (cases "shutil_move fs1 (path f) (choose_destination fs1 ?dir f)")
      case (Inl e)
      with assms m None have "\<not> b" "cats st' = cats st"
        "trace st' = trace st @ [LogUpdated (MsgErrorMoving (file_name f) e)]"
        by (auto simp: move_file_def Let_def emit_def)
      then show ?thesis by (rule fail)
    next
      case (Inr fs2)
      with assms m None have "b" "cats st' = (cats st)[ci := increment_count (cats st ! ci)]"
        "trace st' = trace st @ [LogUpdated (MsgMoved (file_name f) (folder_name (cats st ! ci)))]"
        by (auto simp: move_file_def Let_def emit_def)
      then show ?thesis by (rule ok)
    qed
  qed
qed

lemma get_category_enabled:
  "get_category_for_extension cs e = Some ci \<Longrightarrow> ci < length cs \<and> enabled (cs ! ci)"
  using category_from_Some_iff[of 0 cs e ci] by (simp add: get_category_for_extension_def)

lemma process_file_cases:
  assumes "process_file w n i f (st, oc, ufs) = (st', oc', ufs')"
  obtains
    (skip) "skipped w f" "cats st' = cats st" "fsys st' = fsys st" "oc' = oc" "ufs' = ufs"
      "trace st' = trace st @ [ProgressUpdated (Ratio i n), StatusUpdated (StProcessing (file_name f))]"
  | (unmatched) "\<not> skipped w f" "get_category_for_extension (cats st) (extension f) = None"
      "cats st' = cats st" "fsys st' = fsys st" "oc' = oc" "ufs' = ufs @ [f]"
      "trace st' = trace st @ [ProgressUpdated (Ratio i n), StatusUpdated (StProcessing (file_name f))]"
  | (dry) ci where "\<not> skipped w f" "get_category_for_extension (cats st) (extension f) = Some ci"
      "dry_run w" "cats st' = (cats st)[ci := increment_count (cats st ! ci)]"
      "fsys st' = fsys st" "oc' = oc + 1" "ufs' = ufs"
      "trace st' = trace st @ [ProgressUpdated (Ratio i n), StatusUpdated (StProcessing (file_name f)),
         LogUpdated (MsgDryMove (file_name f) (folder_name (cats st ! ci)))]"
  | (moved) ci where "\<not> skipped w f" "get_category_for_extension (cats st) (extension f) = Some ci"
      "\<not> dry_run w" "cats st' = (cats st)[ci := increment_count (cats st ! ci)]"
      "oc' = oc + 1" "ufs' = ufs"
      "trace st' = trace st @ [ProgressUpdated (Ratio i n), StatusUpdated (StProcessing (file_name f)),
         LogUpdated (MsgMoved (file_name f) (folder_name (cats st ! ci)))]"
  | (failed) ci e where "\<not> skipped w f"
      "get_category_for_extension (cats st) (extension f) = Some ci"
      "\<not> dry_run w" "cats st' = cats st" "oc' = oc" "ufs' = ufs"
      "trace st' = trace st @ [ProgressUpdated (Ratio i n), StatusUpdated (StProcessing (file_name f)),
         LogUpdated (MsgErrorMoving (file_name f) e)]"
proof -
  let ?st1 = "emit (StatusUpdated (StProcessing (file_name f))) (emit (ProgressUpdated (Ratio i n)) st)"
  have st1: "cats ?st1 = cats st" "fsys ?st1 = fsys st"
    "trace ?st1 = trace st @ [ProgressUpdated (Ratio i n), StatusUpdated (StProcessing (file_name f))]"
    by (simp_all add: emit_def)
  show ?thesis
  proof (cases "skipped w f")
    case True
    with assms have "st' = ?st1" "oc' = oc" "ufs' = ufs"
      by (simp_all add: process_file_def skipped_def Let_def)
    with True st1 show ?thesis by (intro skip) simp_all
  next
    case ns: False
    show ?thesis
    proof (cases "get_category_for_extension (cats st) (extension f)")
      case None
      with assms ns st1 have "st' = ?st1" "oc' = oc" "ufs' = ufs @ [f]"
        by (simp_all add: process_file_def skipped_def Let_def)
      with ns None st1 show ?thesis by (intro unmatched) simp_all
    next
      case (Some ci)
      then have en: "enabled (cats st ! ci)" by (simp add: get_category_enabled)
      show ?thesis
      proof (cases "dry_run w")
        case True
        with assms ns Some en st1
        have "st' = emit (LogUpdated (MsgDryMove (file_name f) (folder_name (cats st ! ci))))
                      (?st1\<lparr>cats := (cats st)[ci := increment_count (cats st ! ci)]\<rparr>)"
          "oc' = oc + 1" "ufs' = ufs"
          by (simp_all add: process_file_def skipped_def Let_def)
        with ns Some True st1 show ?thesis by (intro dry[of ci]) (simp_all add: emit_def)
      next
        case real: False
        obtain b st2 where mf: "move_file w f ci ?st1 = (b, st2)"
          by (cases "move_file w f ci ?st1")
        from assms ns Some en st1 real mf
        have r: "st' = st2" "oc' = (if b then oc + 1 else oc)" "ufs' = ufs"
          by (auto simp: process_file_def skipped_def Let_def split: bool.splits)
        from mf show ?thesis
        proof (cases rule: move_file_cases)
          case ok
          with r st1 ns Some real show ?thesis by (intro moved[of ci]) simp_all
        next
          case (fail e)
          with r st1 ns Some real show ?thesis by (intro failed[of ci e]) simp_all
        qed
      qed
    qed
  qed
qed


section \<open>Invariants of the processing loop\<close>

definition same_rules :: "FileCategory list \<Rightarrow> FileCategory list \<Rightarrow> bool" where
  "same_rules cs cs' =
     (map (\<lambda>c. (name c, extensions c, folder_name c, enabled c)) cs
      = map (\<lambda>c. (name c, extensions c, folder_name c, enabled c)) cs')"

definition unmatched :: "FileOrganizerWorker \<Rightarrow> FileCategory list \<Rightarrow> FileInfo \<Rightarrow> bool" where
  "unmatched w cs f = (\<not> skipped w f \<and> get_category_for_extension cs (extension f) = None)"

definition routed_to :: "FileOrganizerWorker \<Rightarrow> FileCategory list \<Rightarrow> nat \<Rightarrow> FileInfo \<Rightarrow> bool" where
  "routed_to w cs i f = (\<not> skipped w f \<and> get_category_for_extension cs (extension f) = Some i)"

fun is_summary :: "event \<Rightarrow> bool" where
  "is_summary (Finished s) = True"
| "is_summary ev = False"

fun is_error :: "event \<Rightarrow> bool" where
  "is_error (ErrorOccurred t) = True"
| "is_error ev = False"

lemma same_rules_refl: "same_rules cs cs"
  by (simp add: same_rules_def)

lemma same_rules_length: "same_rules cs cs' \<Longrightarrow> length cs = length cs'"
  unfolding same_rules_def by (rule map_eq_imp_length_eq)

lemma same_rules_trans: "same_rules a b \<Longrightarrow> same_rules b c \<Longrightarrow> same_rules a c"
  by (simp add: same_rules_def)

lemma same_rules_increment: "same_rules cs (cs[ci := increment_count (cs ! ci)])"
proof -
  let ?f = "\<lambda>c. (name c, extensions c, folder_name c, enabled c)"
  have "map ?f (cs[ci := increment_count (cs ! ci)]) = (map ?f cs)[ci := ?f (cs ! ci)]"
    by (simp add: map_update increment_count_def)
  also have "\<dots> = map ?f cs"
  proof (cases "ci < length cs")
    case True
    then have "?f (cs ! ci) = map ?f cs ! ci" by simp
    then show ?thesis by (simp only: list_update_id)
  next
    case False
    then have "length (map ?f cs) \<le> ci" by simp
    then show ?thesis by (rule list_update_beyond)
  qed
  finally show ?thesis by (simp add: same_rules_def)
qed

lemma same_rules_classify:
  assumes "same_rules cs cs'"
  shows "get_category_for_extension cs e = get_category_for_extension cs' e"
proof -
  from assms have "map (\<lambda>c. (enabled c, extensions c)) cs = map (\<lambda>c. (enabled c, extensions c)) cs'"
    unfolding same_rules_def list_eq_iff_nth_eq by auto
  then show ?thesis unfolding get_category_for_extension_def by (rule category_from_cong)
qed

lemma same_rules_nth:
  "same_rules cs cs' \<Longrightarrow> i < length cs \<Longrightarrow>
     name (cs ! i) = name (cs' ! i) \<and> enabled (cs ! i) = enabled (cs' ! i)
     \<and> extensions (cs ! i) = extensions (cs' ! i) \<and> folder_name (cs ! i) = folder_name (cs' ! i)"
  unfolding same_rules_def list_eq_iff_nth_eq by auto

lemma move_errors_append: "move_errors (a @ b) = move_errors a + move_errors b"
  by (simp add: move_errors_def)

lemma process_file_summary:
  assumes pf: "process_file w n i f (st, oc, ufs) = (st', oc', ufs')"
    and sr: "same_rules cs (cats st)"
  shows "same_rules cs (cats st')"
    and "ufs' = ufs @ (if unmatched w cs f then [f] else [])"
    and "oc' + length ufs' + move_errors (trace st') + (if skipped w f then 1 else 0)
          = oc + length ufs + move_errors (trace st) + 1"
    and "\<exists>new. trace st' = trace st @ new \<and> (\<forall>e\<in>set new. \<not> is_summary e \<and> \<not> is_error e)"
    and "dry_run w \<Longrightarrow> fsys st' = fsys st"
    and "j < length cs \<Longrightarrow>
           file_count (cats st' ! j) \<le> file_count (cats st ! j) + (if routed_to w cs j f then 1 else 0)"
    and "dry_run w \<or> move_errors (trace st') = move_errors (trace st) \<Longrightarrow> j < length cs \<Longrightarrow>
           file_count (cats st' ! j) = file_count (cats st ! j) + (if routed_to w cs j f then 1 else 0)"
proof -
  have cl: "get_category_for_extension cs (extension f)
      = get_category_for_extension (cats st) (extension f)"
    using sr by (rule same_rules_classify)
  have len: "length (cats st) = length cs" using sr by (simp add: same_rules_length)
  have upd: "same_rules cs ((cats st)[ci := increment_count (cats st ! ci)])" for ci
    using sr same_rules_increment by (rule same_rules_trans)
  have cnt: "file_count ((cats st)[ci := increment_count (cats st ! ci)] ! j)
      = file_count (cats st ! j) + (if j = ci then 1 else 0)" if "j < length cs" for ci
    using that len by (simp add: nth_list_update increment_count_def)
  from pf show "same_rules cs (cats st')"
    by (cases rule: process_file_cases) (simp_all add: sr upd)
  from pf show "ufs' = ufs @ (if unmatched w cs f then [f] else [])"
    by (cases rule: process_file_cases) (simp_all add: unmatched_def cl)
  from pf show "oc' + length ufs' + move_errors (trace st') + (if skipped w f then 1 else 0)
          = oc + length ufs + move_errors (trace st) + 1"
    by (cases rule: process_file_cases) (simp_all add: move_errors_append, simp_all add: move_errors_def)
  from pf show "\<exists>new. trace st' = trace st @ new \<and> (\<forall>e\<in>set new. \<not> is_summary e \<and> \<not> is_error e)"
    by (cases rule: process_file_cases) simp_all
  from pf show "fsys st' = fsys st" if "dry_run w"
    using that by (cases rule: process_file_cases) simp_all
  from pf show "file_count (cats st' ! j) \<le> file_count (cats st ! j) + (if routed_to w cs j f then 1 else 0)"
    if "j < length cs"
    using that by (cases rule: process_file_cases) (auto simp: routed_to_def cl cnt)
  from pf show "file_count (cats st' ! j) = file_count (cats st ! j) + (if routed_to w cs j f then 1 else 0)"
    if "dry_run w \<or> move_errors (trace st') = move_errors (trace st)" and "j < length cs"
    using that
    by (cases rule: process_file_cases)
       (auto simp: routed_to_def cl cnt move_errors_append, simp_all add: move_errors_def)
qed


lemma process_file_errors_mono:
  assumes "process_file w n i f (st, oc, ufs) = (st', oc', ufs')"
  shows "move_errors (trace st) \<le> move_errors (trace st')"
  using process_file_summary(4)[OF assms same_rules_refl] by (auto simp: move_errors_append)

lemma process_files_rules:
  assumes "process_files w k n i files (st, oc, ufs) = (b, st', oc', ufs')"
    and "same_rules cs (cats st)"
  shows "same_rules cs (cats st')"
  using assms
proof (induction files arbitrary: i st oc ufs)
  case Nil
  then show ?case by simp
next
  case (Cons f rest)
  show ?case
  proof (cases "should_stop w (k + i)")
    case True
    with Cons.prems show ?thesis by simp
  next
    case False
    obtain st1 oc1 ufs1 where pf: "process_file w n i f (st, oc, ufs) = (st1, oc1, ufs1)"
      by (cases "process_file w n i f (st, oc, ufs)")
    with False Cons.prems(1)
    have r: "process_files w k n (Suc i) rest (st1, oc1, ufs1) = (b, st', oc', ufs')" by simp
    from Cons.IH[OF r process_file_summary(1)[OF pf Cons.prems(2)]] show ?thesis .
  qed
qed

lemma process_files_trace:
  assumes "process_files w k n i files (st, oc, ufs) = (b, st', oc', ufs')"
  shows "\<exists>new. trace st' = trace st @ new \<and> (\<forall>e\<in>set new. \<not> is_summary e \<and> \<not> is_error e)"
  using assms
proof (induction files arbitrary: i st oc ufs)
  case Nil
  then show ?case by simp
next
  case (Cons f rest)
  show ?case
  proof (cases "should_stop w (k + i)")
    case True
    with Cons.prems show ?thesis by simp
  next
    case False
    obtain st1 oc1 ufs1 where pf: "process_file w n i f (st, oc, ufs) = (st1, oc1, ufs1)"
      by (cases "process_file w n i f (st, oc, ufs)")
    with False Cons.prems(1)
    have r: "process_files w k n (Suc i) rest (st1, oc1, ufs1) = (b, st', oc', ufs')" by simp
    from process_file_summary(4)[OF pf same_rules_refl] obtain new1 where
      n1: "trace st1 = trace st @ new1" "\<forall>e\<in>set new1. \<not> is_summary e \<and> \<not> is_error e" by blast
    from Cons.IH[OF r] obtain new2 where
      n2: "trace st' = trace st1 @ new2" "\<forall>e\<in>set new2. \<not> is_summary e \<and> \<not> is_error e" by blast
    from n1 n2 have "trace st' = trace st @ (new1 @ new2)
        \<and> (\<forall>e\<in>set (new1 @ new2). \<not> is_summary e \<and> \<not> is_error e)" by auto
    then show ?thesis by blast
  qed
qed

lemma process_files_errors_mono:
  assumes "process_files w k n i files (st, oc, ufs) = (b, st', oc', ufs')"
  shows "move_errors (trace st) \<le> move_errors (trace st')"
  using process_files_trace[OF assms] by (auto simp: move_errors_append)

lemma process_files_dry_fs:
  assumes "process_files w k n i files (st, oc, ufs) = (b, st', oc', ufs')" and "dry_run w"
  shows "fsys st' = fsys st"
  using assms
proof (induction files arbitrary: i st oc ufs)
  case Nil
  then show ?case by simp
next
  case (Cons f rest)
  show ?case
  proof (cases "should_stop w (k + i)")
    case True
    with Cons.prems show ?thesis by simp
  next
    case False
    obtain st1 oc1 ufs1 where pf: "process_file w n i f (st, oc, ufs) = (st1, oc1, ufs1)"
      by (cases "process_file w n i f (st, oc, ufs)")
    with False Cons.prems(1)
    have r: "process_files w k n (Suc i) rest (st1, oc1, ufs1) = (b, st', oc', ufs')" by simp
    from Cons.IH[OF r Cons.prems(2)] process_file_summary(5)[OF pf same_rules_refl Cons.prems(2)]
    show ?thesis by simp
  qed
qed

lemma process_files_uncategorized:
  assumes "process_files w k n i files (st, oc, ufs) = (False, st', oc', ufs')"
    and "same_rules cs (cats st)"
  shows "ufs' = ufs @ filter (unmatched w cs) files"
  using assms
proof (induction files arbitrary: i st oc ufs)
  case Nil
  then show ?case by simp
next
  case (Cons f rest)
  show ?case
  proof (cases "should_stop w (k + i)")
    case True
    with Cons.prems show ?thesis by simp
  next
    case False
    obtain st1 oc1 ufs1 where pf: "process_file w n i f (st, oc, ufs) = (st1, oc1, ufs1)"
      by (cases "process_file w n i f (st, oc, ufs)")
    with False Cons.prems(1)
    have r: "process_files w k n (Suc i) rest (st1, oc1, ufs1) = (False, st', oc', ufs')" by simp
    note s = process_file_summary[OF pf Cons.prems(2)]
    from Cons.IH[OF r s(1)] s(2) show ?thesis by simp
  qed
qed

lemma process_files_accounting:
  assumes "process_files w k n i files (st, oc, ufs) = (False, st', oc', ufs')"
  shows "oc' + length ufs' + move_errors (trace st') + length (filter (skipped w) files)
          = oc + length ufs + move_errors (trace st) + length files"
  using assms
proof (induction files arbitrary: i st oc ufs)
  case Nil
  then show ?case by simp
next
  case (Cons f rest)
  show ?case
  proof (cases "should_stop w (k + i)")
    case True
    with Cons.prems show ?thesis by simp
  next
    case False
    obtain st1 oc1 ufs1 where pf: "process_file w n i f (st, oc, ufs) = (st1, oc1, ufs1)"
      by (cases "process_file w n i f (st, oc, ufs)")
    with False Cons.prems(1)
    have r: "process_files w k n (Suc i) rest (st1, oc1, ufs1) = (False, st', oc', ufs')" by simp
    from Cons.IH[OF r] process_file_summary(3)[OF pf same_rules_refl]
    show ?thesis by (cases "skipped w f") simp_all
  qed
qed


lemma process_files_count_eq:
  assumes "process_files w k n i files (st, oc, ufs) = (False, st', oc', ufs')"
    and "same_rules cs (cats st)" and "j < length cs"
    and "dry_run w \<or> move_errors (trace st') = move_errors (trace st)"
  shows "file_count (cats st' ! j)
          = file_count (cats st ! j) + length (filter (routed_to w cs j) files)"
  using assms(1,2,4)
proof (induction files arbitrary: i st oc ufs)
  case Nil
  then show ?case by simp
next
  case (Cons f rest)
  show ?case
  proof (cases "should_stop w (k + i)")
    case True
    with Cons.prems show ?thesis by simp
  next
    case False
    obtain st1 oc1 ufs1 where pf: "process_file w n i f (st, oc, ufs) = (st1, oc1, ufs1)"
      by (cases "process_file w n i f (st, oc, ufs)")
    with False Cons.prems(1)
    have r: "process_files w k n (Suc i) rest (st1, oc1, ufs1) = (False, st', oc', ufs')" by simp
    note s = process_file_summary[OF pf Cons.prems(2)]
    have m1: "move_errors (trace st) \<le> move_errors (trace st1)"
      using pf by (rule process_file_errors_mono)
    have m2: "move_errors (trace st1) \<le> move_errors (trace st')"
      using r by (rule process_files_errors_mono)
    from Cons.prems(3) m1 m2
    have a: "dry_run w \<or> move_errors (trace st1) = move_errors (trace st)"
      and b: "dry_run w \<or> move_errors (trace st') = move_errors (trace st1)" by auto
    from Cons.IH[OF r s(1) b] s(7)[OF a assms(3)] show ?thesis
      by (cases "routed_to w cs j f") simp_all
  qed
qed

lemma process_files_stopped_iff:
  "fst (process_files w k n i files ls) \<longleftrightarrow> (\<exists>d<length files. should_stop w (k + i + d))"
proof (induction files arbitrary: i ls)
  case Nil
  show ?case by simp
next
  case (Cons f rest)
  show ?case
  proof (cases "should_stop w (k + i)")
    case True
    then have "\<exists>d<length (f # rest). should_stop w (k + i + d)" by (intro exI[of _ 0]) simp
    with True show ?thesis by simp
  next
    case False
    have "(\<exists>d<length (f # rest). should_stop w (k + i + d))
        \<longleftrightarrow> (\<exists>d<length rest. should_stop w (k + Suc i + d))"
    proof
      assume "\<exists>d<length (f # rest). should_stop w (k + i + d)"
      then obtain d where d: "d < length (f # rest)" "should_stop w (k + i + d)" by blast
      with False have "d \<noteq> 0" by (cases d) auto
      then obtain d' where "d = Suc d'" by (cases d) auto
      with d show "\<exists>d<length rest. should_stop w (k + Suc i + d)" by (intro exI[of _ d']) simp
    next
      assume "\<exists>d<length rest. should_stop w (k + Suc i + d)"
      then obtain d where "d < length rest" "should_stop w (k + Suc i + d)" by blast
      then show "\<exists>d<length (f # rest). should_stop w (k + i + d)" by (intro exI[of _ "Suc d"]) simp
    qed
    with False Cons.IH[of "Suc i"] show ?thesis by simp
  qed
qed


section \<open>The phases of a run\<close>

definition announce :: "FileOrganizerWorker \<Rightarrow> run_state \<Rightarrow> run_state" where
  "announce w st =
     emit (StatusUpdated StScanning)
       (emit (LogUpdated (MsgDestination (dest_dir w)))
          (emit (LogUpdated (MsgSource (source_dir w)))
             (emit (LogUpdated (MsgStarting (dry_run w))) st)))"

definition scan :: "FileOrganizerWorker \<Rightarrow> filesystem \<Rightarrow> scan_result" where
  "scan w fs = scan_files w fs 0 (rglob fs (source_dir w)) []"

definition loop_start ::
  "FileOrganizerWorker \<Rightarrow> FileInfo list \<Rightarrow> filesystem \<Rightarrow> run_state \<Rightarrow> run_state" where
  "loop_start w files fs1 st =
     (emit (LogUpdated (MsgFound (length files))) (announce w st))
       \<lparr>fsys := fs1, cats := reset_counts (cats st)\<rparr>"

definition loop_run ::
  "FileOrganizerWorker \<Rightarrow> FileInfo list \<Rightarrow> filesystem \<Rightarrow> run_state \<Rightarrow> bool \<times> loop_state" where
  "loop_run w files fs1 st =
     process_files w (length (rglob (fsys st) (source_dir w))) (length files) 0 files
       (loop_start w files fs1 st, 0, [])"

definition root_ready :: "FileOrganizerWorker \<Rightarrow> run_state \<Rightarrow> filesystem \<Rightarrow> bool" where
  "root_ready w st fs1 =
     (if dry_run w then fs1 = fsys st else mkdir (fsys st) (dest_dir w) = (None, fs1))"

definition leftovers_done ::
  "FileOrganizerWorker \<Rightarrow> FileInfo list \<Rightarrow> run_state \<Rightarrow> run_state \<Rightarrow> bool" where
  "leftovers_done w ufs st4 st5 =
     (if ufs \<noteq> [] \<and> \<not> dry_run w then handle_uncategorized_files w ufs st4 = (None, st5)
      else st5 = st4)"

definition conclude :: "nat \<Rightarrow> nat \<Rightarrow> FileInfo list \<Rightarrow> run_state \<Rightarrow> run_state" where
  "conclude n oc ufs st =
     emit (Finished \<lparr>total_files = n, organized = oc, uncategorized = length ufs,
                     categories = summary_categories (cats st)\<rparr>)
       (emit (LogUpdated (MsgComplete oc))
          (emit (StatusUpdated StComplete) (emit (ProgressUpdated (Percent 100)) st)))"

definition zero_summary :: summary where
  "zero_summary = \<lparr>total_files = 0, organized = 0, uncategorized = 0, categories = []\<rparr>"

lemma announce_simps:
  "cats (announce w st) = cats st" "fsys (announce w st) = fsys st"
  "trace (announce w st) = trace st @ [LogUpdated (MsgStarting (dry_run w)),
     LogUpdated (MsgSource (source_dir w)), LogUpdated (MsgDestination (dest_dir w)),
     StatusUpdated StScanning]"
  by (simp_all add: announce_def emit_def)

lemma run_cases:
  obtains
    (scan_stopped) "scan w (fsys st) = ScanStopped" "run w st = (Aborted, announce w st)"
  | (scan_failed) e where "scan w (fsys st) = ScanError e"
      "run w st = (Failed, emit (ErrorOccurred (ErrScanning e)) (announce w st))"
  | (no_files) "scan w (fsys st) = Scanned []"
      "run w st = (Completed, emit (Finished zero_summary) (emit (LogUpdated MsgNoFiles) (announce w st)))"
  | (root_failed) files e fs1 where "scan w (fsys st) = Scanned files" "files \<noteq> []"
      "\<not> dry_run w" "mkdir (fsys st) (dest_dir w) = (Some e, fs1)"
      "run w st = (Failed, emit (ErrorOccurred (ErrUncaught e))
                     ((emit (LogUpdated (MsgFound (length files))) (announce w st))\<lparr>fsys := fs1\<rparr>))"
  | (loop_stopped) files fs1 ls where "scan w (fsys st) = Scanned files" "files \<noteq> []"
      "root_ready w st fs1" "loop_run w files fs1 st = (True, ls)" "run w st = (Aborted, fst ls)"
  | (leftovers_failed) files fs1 st4 oc ufs e st5 where "scan w (fsys st) = Scanned files"
      "files \<noteq> []" "root_ready w st fs1" "loop_run w files fs1 st = (False, st4, oc, ufs)"
      "ufs \<noteq> []" "\<not> dry_run w" "handle_uncategorized_files w ufs st4 = (Some e, st5)"
      "run w st = (Failed, emit (ErrorOccurred (ErrUncaught e)) st5)"
  | (completed) files fs1 st4 oc ufs st5 where "scan w (fsys st) = Scanned files"
      "files \<noteq> []" "root_ready w st fs1" "loop_run w files fs1 st = (False, st4, oc, ufs)"
      "leftovers_done w ufs st4 st5" "run w st = (Completed, conclude (length files) oc ufs st5)"
proof (cases "scan w (fsys st)")
  case ScanStopped
  then have "run w st = (Aborted, announce w st)"
    by (simp add: run_def organize_files_def scan_def announce_def Let_def emit_def)
  with ScanStopped show ?thesis by (rule scan_stopped)
next
  case (ScanError e)
  then have "run w st = (Failed, emit (ErrorOccurred (ErrScanning e)) (announce w st))"
    by (simp add: run_def organize_files_def scan_def announce_def Let_def emit_def)
  with ScanError show ?thesis by (rule scan_failed)
next
  case (Scanned files)
  then have of_eq: "organize_files w st
      = process_scanned w (length (rglob (fsys st) (source_dir w))) files (announce w st)"
    by (simp add: organize_files_def scan_def announce_def Let_def emit_def)
  show ?thesis
  proof (cases "files = []")
    case True
    with of_eq have "run w st
        = (Completed, emit (Finished zero_summary) (emit (LogUpdated MsgNoFiles) (announce w st)))"
      by (simp add: run_def process_scanned_def zero_summary_def)
    with Scanned True show ?thesis by (intro no_files) simp_all
  next
    case ne: False
    let ?st1 = "emit (LogUpdated (MsgFound (length files))) (announce w st)"
    have fs1: "fsys ?st1 = fsys st" "cats ?st1 = cats st" by (simp_all add: emit_def announce_simps)
    obtain r fs1 where m: "(if \<not> dry_run w then mkdir (fsys st) (dest_dir w) else (None, fsys st))
        = (r, fs1)" by (cases "if \<not> dry_run w then mkdir (fsys st) (dest_dir w) else (None, fsys st)")
    show ?thesis
    proof (cases r)
      case (Some e)
      with m have nd: "\<not> dry_run w" and mk: "mkdir (fsys st) (dest_dir w) = (Some e, fs1)"
        by (cases "dry_run w", simp_all)+
      from of_eq ne nd mk fs1 have "run w st
          = (Failed, emit (ErrorOccurred (ErrUncaught e)) (?st1\<lparr>fsys := fs1\<rparr>))"
        by (simp add: run_def process_scanned_def Let_def)
      with Scanned ne nd mk show ?thesis by (intro root_failed[of files e fs1]) simp_all
    next
      case None
      with m have rr: "root_ready w st fs1" by (cases "dry_run w") (simp_all add: root_ready_def)
      have ls: "?st1\<lparr>fsys := fs1, cats := reset_counts (cats ?st1)\<rparr> = loop_start w files fs1 st"
        by (simp add: loop_start_def fs1)
      obtain b st4 oc ufs where lr: "loop_run w files fs1 st = (b, st4, oc, ufs)"
        by (cases "loop_run w files fs1 st")
      have root: "(if \<not> dry_run w then mkdir (fsys ?st1) (dest_dir w) else (None, fsys ?st1))
          = (None, fs1)"
        using m None by (cases "dry_run w") (simp_all add: fs1)
      have lr': "process_files w (length (rglob (fsys st) (source_dir w))) (length files) 0 files
          (?st1\<lparr>fsys := fs1, cats := reset_counts (cats ?st1)\<rparr>, 0, []) = (b, st4, oc, ufs)"
        using lr unfolding loop_run_def ls .
      have org: "organize_files w st
          = (if b then (Inr Aborted, st4) else finalize w (length files) (st4, oc, ufs))"
        using ne lr' by (simp add: of_eq process_scanned_def Let_def root)
      show ?thesis
      proof (cases b)
        case True
        with org lr have "run w st = (Aborted, fst (st4, oc, ufs))" by (simp add: run_def)
        with Scanned ne rr lr True show ?thesis by (intro loop_stopped[of files fs1 "(st4, oc, ufs)"]) simp_all
      next
        case nb: False
        obtain r2 st5 where h: "(if ufs \<noteq> [] \<and> \<not> dry_run w
              then handle_uncategorized_files w ufs st4 else (None, st4)) = (r2, st5)"
          by (cases "if ufs \<noteq> [] \<and> \<not> dry_run w
              then handle_uncategorized_files w ufs st4 else (None, st4)")
        show ?thesis
        proof (cases r2)
          case (Some e)
          with h have u: "ufs \<noteq> [] \<and> \<not> dry_run w
            \<and> handle_uncategorized_files w ufs st4 = (Some e, st5)"
            by (cases "ufs \<noteq> [] \<and> \<not> dry_run w") simp_all
          from org nb h Some have "run w st = (Failed, emit (ErrorOccurred (ErrUncaught e)) st5)"
            by (simp add: run_def finalize_def)
          with Scanned ne rr lr nb u show ?thesis
            by (intro leftovers_failed[of files fs1 st4 oc ufs e st5]) simp_all
        next
          case None
          with h have ld: "leftovers_done w ufs st4 st5"
            by (cases "ufs \<noteq> [] \<and> \<not> dry_run w") (auto simp: leftovers_done_def)
          from org nb h None have "run w st = (Completed, conclude (length files) oc ufs st5)"
            by (simp add: run_def finalize_def conclude_def Let_def emit_def)
          with Scanned ne rr lr nb ld show ?thesis
            by (intro completed[of files fs1 st4 oc ufs st5]) simp_all
        qed
      qed
    qed
  qed
qed

section \<open>What a run emits\<close>

definition quiet :: "event list \<Rightarrow> bool" where
  "quiet tr = list_all (\<lambda>e. \<not> is_summary e \<and> \<not> is_error e \<and> \<not> is_move_error e) tr"

definition initial :: "FileCategory list \<Rightarrow> filesystem \<Rightarrow> run_state" where
  "initial cs fs = \<lparr>cats = cs, fsys = fs, trace = []\<rparr>"

lemma quiet_append: "quiet (a @ b) \<longleftrightarrow> quiet a \<and> quiet b"
  by (simp add: quiet_def)

lemma move_uncategorized_frame:
  "cats (move_uncategorized up files st) = cats st
   \<and> (\<exists>new. trace (move_uncategorized up files st) = trace st @ new \<and> quiet new)"
proof (induction files arbitrary: st)
  case Nil
  show ?case by (simp add: quiet_def)
next
  case (Cons f rest)
  let ?d = "choose_destination (fsys st) up f"
  show ?case
  proof (cases "shutil_move (fsys st) (path f) ?d")
    case (Inl e)
    let ?st1 = "emit (LogUpdated (MsgErrorMovingUncategorized (file_name f) e)) st"
    from Cons.IH[of ?st1] obtain new where
      n: "cats (move_uncategorized up rest ?st1) = cats ?st1"
        "trace (move_uncategorized up rest ?st1) = trace ?st1 @ new" "quiet new" by blast
    have "trace (move_uncategorized up (f # rest) st)
        = trace st @ (LogUpdated (MsgErrorMovingUncategorized (file_name f) e) # new)"
      using Inl n(2) by (simp add: Let_def emit_def)
    moreover have "quiet (LogUpdated (MsgErrorMovingUncategorized (file_name f) e) # new)"
      using n(3) by (simp add: quiet_def)
    moreover have "cats (move_uncategorized up (f # rest) st) = cats st"
      using Inl n(1) by (simp add: Let_def emit_def)
    ultimately show ?thesis by blast
  next
    case (Inr fs2)
    let ?st1 = "emit (LogUpdated (MsgMovedUncategorized (file_name f))) (st\<lparr>fsys := fs2\<rparr>)"
    from Cons.IH[of ?st1] obtain new where
      n: "cats (move_uncategorized up rest ?st1) = cats ?st1"
        "trace (move_uncategorized up rest ?st1) = trace ?st1 @ new" "quiet new" by blast
    have "trace (move_uncategorized up (f # rest) st)
        = trace st @ (LogUpdated (MsgMovedUncategorized (file_name f)) # new)"
      using Inr n(2) by (simp add: Let_def emit_def)
    moreover have "quiet (LogUpdated (MsgMovedUncategorized (file_name f)) # new)"
      using n(3) by (simp add: quiet_def)
    moreover have "cats (move_uncategorized up (f # rest) st) = cats st"
      using Inr n(1) by (simp add: Let_def emit_def)
    ultimately show ?thesis by blast
  qed
qed

lemma handle_uncategorized_files_frame:
  assumes "handle_uncategorized_files w ufs st = (r, st')"
  shows "cats st' = cats st \<and> (\<exists>new. trace st' = trace st @ new \<and> quiet new)"
proof (cases "ufs = []")
  case True
  with assms show ?thesis by (simp add: handle_uncategorized_files_def quiet_def)
next
  case False
  let ?up = "dest_dir w @ [''Uncategorized'']"
  obtain r1 fs1 where m: "mkdir (fsys st) ?up = (r1, fs1)" by (cases "mkdir (fsys st) ?up")
  show ?thesis
  proof (cases r1)
    case (Some e)
    with assms False m show ?thesis by (auto simp: handle_uncategorized_files_def Let_def quiet_def)
  next
    case None
    with assms False m have "st' = move_uncategorized ?up ufs (st\<lparr>fsys := fs1\<rparr>)"
      by (auto simp: handle_uncategorized_files_def Let_def)
    with move_uncategorized_frame[of ?up ufs "st\<lparr>fsys := fs1\<rparr>"] show ?thesis by simp
  qed
qed

lemma leftovers_done_frame:
  assumes "leftovers_done w ufs st4 st5"
  shows "cats st5 = cats st4 \<and> (\<exists>new. trace st5 = trace st4 @ new \<and> quiet new)"
proof (cases "ufs \<noteq> [] \<and> \<not> dry_run w")
  case True
  with assms have "handle_uncategorized_files w ufs st4 = (None, st5)"
    by (simp add: leftovers_done_def)
  then show ?thesis by (rule handle_uncategorized_files_frame)
next
  case False
  with assms have "st5 = st4" by (auto simp: leftovers_done_def)
  then show ?thesis by (simp add: quiet_def)
qed

lemma loop_start_simps:
  "cats (loop_start w files fs1 st) = reset_counts (cats st)"
  "fsys (loop_start w files fs1 st) = fs1"
  "trace (loop_start w files fs1 st) = trace (announce w st) @ [LogUpdated (MsgFound (length files))]"
  by (simp_all add: loop_start_def emit_def)

lemma same_rules_reset: "same_rules cs (reset_counts cs)"
  by (simp add: same_rules_def reset_counts_def reset_count_def comp_def)

lemma conclude_simps:
  "cats (conclude n oc ufs st) = cats st" "fsys (conclude n oc ufs st) = fsys st"
  "trace (conclude n oc ufs st) = trace st @ [ProgressUpdated (Percent 100),
     StatusUpdated StComplete, LogUpdated (MsgComplete oc),
     Finished \<lparr>total_files = n, organized = oc, uncategorized = length ufs,
               categories = summary_categories (cats st)\<rparr>]"
  by (simp_all add: conclude_def emit_def)

text \<open>The events a run adds, by outcome.\<close>

lemma loop_run_trace:
  assumes "loop_run w files fs1 st = (b, st4, oc, ufs)"
  shows "\<exists>new. trace st4 = trace st @ new
           \<and> list_all (\<lambda>e. \<not> is_summary e \<and> \<not> is_error e) new"
proof -
  from assms have "process_files w (length (rglob (fsys st) (source_dir w))) (length files) 0 files
      (loop_start w files fs1 st, 0, []) = (b, st4, oc, ufs)" by (simp add: loop_run_def)
  from process_files_trace[OF this] obtain new where
    n: "trace st4 = trace (loop_start w files fs1 st) @ new"
       "\<forall>e\<in>set new. \<not> is_summary e \<and> \<not> is_error e" by blast
  let ?new = "[LogUpdated (MsgStarting (dry_run w)),
     LogUpdated (MsgSource (source_dir w)), LogUpdated (MsgDestination (dest_dir w)),
     StatusUpdated StScanning, LogUpdated (MsgFound (length files))] @ new"
  have "trace st4 = trace st @ ?new" using n(1) by (simp add: loop_start_simps announce_simps)
  moreover have "list_all (\<lambda>e. \<not> is_summary e \<and> \<not> is_error e) ?new"
    using n(2) by (simp add: list_all_iff)
  ultimately show ?thesis by blast
qed

lemma run_trace:
  obtains new where "trace (snd (run w st)) = trace st @ new"
    and "fst (run w st) = Completed \<Longrightarrow>
           \<exists>pre s. new = pre @ [Finished s] \<and> list_all (\<lambda>e. \<not> is_summary e \<and> \<not> is_error e) pre"
    and "fst (run w st) = Aborted \<Longrightarrow> list_all (\<lambda>e. \<not> is_summary e \<and> \<not> is_error e) new"
    and "fst (run w st) = Failed \<Longrightarrow>
           \<exists>pre t. new = pre @ [ErrorOccurred t] \<and> list_all (\<lambda>e. \<not> is_summary e \<and> \<not> is_error e) pre"
proof (cases rule: run_cases[of w st])
  case scan_stopped
  then show ?thesis by (intro that[of "drop (length (trace st)) (trace (announce w st))"])
      (simp_all add: announce_simps)
next
  case (scan_failed e)
  let ?pre = "[LogUpdated (MsgStarting (dry_run w)),
     LogUpdated (MsgSource (source_dir w)), LogUpdated (MsgDestination (dest_dir w)),
     StatusUpdated StScanning]"
  from scan_failed show ?thesis
    by (intro that[of "?pre @ [ErrorOccurred (ErrScanning e)]"])
       (simp_all add: announce_simps emit_def)
next
  case no_files
  let ?pre = "[LogUpdated (MsgStarting (dry_run w)),
     LogUpdated (MsgSource (source_dir w)), LogUpdated (MsgDestination (dest_dir w)),
     StatusUpdated StScanning, LogUpdated MsgNoFiles]"
  from no_files show ?thesis
    by (intro that[of "?pre @ [Finished zero_summary]"]) (simp_all add: announce_simps emit_def)
next
  case (root_failed files e fs1)
  let ?pre = "[LogUpdated (MsgStarting (dry_run w)),
     LogUpdated (MsgSource (source_dir w)), LogUpdated (MsgDestination (dest_dir w)),
     StatusUpdated StScanning, LogUpdated (MsgFound (length files))]"
  from root_failed show ?thesis
    by (intro that[of "?pre @ [ErrorOccurred (ErrUncaught e)]"]) (simp_all add: announce_simps emit_def)
next
  case (loop_stopped files fs1 ls)
  obtain st4 oc ufs where ls: "ls = (st4, oc, ufs)" by (cases ls)
  from loop_run_trace[of w files fs1 st True st4 oc ufs] loop_stopped(4) ls obtain new where
    "trace st4 = trace st @ new" "list_all (\<lambda>e. \<not> is_summary e \<and> \<not> is_error e) new" by auto
  with loop_stopped ls show ?thesis by (intro that[of new]) simp_all
next
  case (leftovers_failed files fs1 st4 oc ufs e st5)
  from loop_run_trace[OF leftovers_failed(4)] obtain new where
    n: "trace st4 = trace st @ new" "list_all (\<lambda>e. \<not> is_summary e \<and> \<not> is_error e) new" by auto
  from handle_uncategorized_files_frame[OF leftovers_failed(7)] obtain new2 where
    n2: "trace st5 = trace st4 @ new2" "quiet new2" by auto
  from n2(2) have q2: "list_all (\<lambda>e. \<not> is_summary e \<and> \<not> is_error e) new2"
    by (simp add: quiet_def list_all_iff)
  from leftovers_failed n n2 q2 show ?thesis
    by (intro that[of "(new @ new2) @ [ErrorOccurred (ErrUncaught e)]"]) (simp_all add: emit_def)
next
  case (completed files fs1 st4 oc ufs st5)
  from loop_run_trace[OF completed(4)] obtain new where
    n: "trace st4 = trace st @ new" "list_all (\<lambda>e. \<not> is_summary e \<and> \<not> is_error e) new" by auto
  from leftovers_done_frame[OF completed(5)] obtain new2 where
    n2: "trace st5 = trace st4 @ new2" "quiet new2" by auto
  from n2(2) have q2: "list_all (\<lambda>e. \<not> is_summary e \<and> \<not> is_error e) new2"
    by (simp add: quiet_def list_all_iff)
  let ?s = "\<lparr>total_files = length files, organized = oc, uncategorized = length ufs,
               categories = summary_categories (cats st5)\<rparr>"
  let ?pre = "new @ new2 @ [ProgressUpdated (Percent 100),
     StatusUpdated StComplete, LogUpdated (MsgComplete oc)]"
  from completed n n2 q2 show ?thesis
    by (intro that[of "?pre @ [Finished ?s]"]) (simp_all add: conclude_simps)
qed


lemma run_summary_cases:
  assumes "Finished s \<in> set (trace (snd (run w (initial cs fs))))"
  obtains
    (no_files) "scan w fs = Scanned []" "s = zero_summary"
  | (completed) files fs1 st4 oc ufs st5 where "scan w fs = Scanned files" "files \<noteq> []"
      "root_ready w (initial cs fs) fs1"
      "loop_run w files fs1 (initial cs fs) = (False, st4, oc, ufs)"
      "leftovers_done w ufs st4 st5"
      "run w (initial cs fs) = (Completed, conclude (length files) oc ufs st5)"
      "s = \<lparr>total_files = length files, organized = oc, uncategorized = length ufs,
             categories = summary_categories (cats st5)\<rparr>"
proof (cases rule: run_cases[of w "initial cs fs"])
  case scan_stopped
  with assms show ?thesis by (simp add: announce_simps initial_def)
next
  case (scan_failed e)
  with assms show ?thesis by (simp add: announce_simps initial_def emit_def)
next
  case no_files
  with assms have "s = zero_summary" by (simp add: announce_simps initial_def emit_def)
  with no_files show ?thesis by (intro that(1)) (simp_all add: initial_def)
next
  case (root_failed files e fs1)
  with assms show ?thesis by (simp add: announce_simps initial_def emit_def)
next
  case (loop_stopped files fs1 ls)
  obtain st4 oc ufs where ls: "ls = (st4, oc, ufs)" by (cases ls)
  from loop_run_trace[of w files fs1 "initial cs fs" True st4 oc ufs] loop_stopped(4) ls
  obtain new where "trace st4 = trace (initial cs fs) @ new"
    "list_all (\<lambda>e. \<not> is_summary e \<and> \<not> is_error e) new" by auto
  with assms loop_stopped(5) ls show ?thesis by (auto simp: initial_def list_all_iff)
next
  case (leftovers_failed files fs1 st4 oc ufs e st5)
  from loop_run_trace[OF leftovers_failed(4)] obtain new where
    n: "trace st4 = trace (initial cs fs) @ new"
       "list_all (\<lambda>e. \<not> is_summary e \<and> \<not> is_error e) new" by auto
  from handle_uncategorized_files_frame[OF leftovers_failed(7)] obtain new2 where
    n2: "trace st5 = trace st4 @ new2" "quiet new2" by auto
  from assms leftovers_failed(8) n n2 show ?thesis
    by (auto simp: initial_def list_all_iff emit_def quiet_def)
next
  case (completed files fs1 st4 oc ufs st5)
  from loop_run_trace[OF completed(4)] obtain new where
    n: "trace st4 = trace (initial cs fs) @ new"
       "list_all (\<lambda>e. \<not> is_summary e \<and> \<not> is_error e) new" by auto
  from leftovers_done_frame[OF completed(5)] obtain new2 where
    n2: "trace st5 = trace st4 @ new2" "quiet new2" by auto
  from assms completed(6) n n2
  have "s = \<lparr>total_files = length files, organized = oc, uncategorized = length ufs,
             categories = summary_categories (cats st5)\<rparr>"
    by (auto simp: initial_def list_all_iff conclude_simps quiet_def)
  with completed show ?thesis by (intro that(2)[of files fs1 st4 oc ufs st5]) (simp_all add: initial_def)
qed

lemma loop_run_uncategorized:
  assumes "loop_run w files fs1 (initial cs fs) = (False, st4, oc, ufs)"
  shows "ufs = filter (unmatched w cs) files"
proof -
  from assms have p: "process_files w (length (rglob fs (source_dir w))) (length files) 0 files
      (loop_start w files fs1 (initial cs fs), 0, []) = (False, st4, oc, ufs)"
    by (simp add: loop_run_def initial_def)
  have "same_rules cs (cats (loop_start w files fs1 (initial cs fs)))"
    by (simp add: loop_start_simps initial_def same_rules_reset)
  from process_files_uncategorized[OF p this] show ?thesis by simp
qed

lemma loop_run_accounting:
  assumes "loop_run w files fs1 (initial cs fs) = (False, st4, oc, ufs)"
  shows "oc + length ufs + move_errors (trace st4) + length (filter (skipped w) files) = length files"
proof -
  from assms have p: "process_files w (length (rglob fs (source_dir w))) (length files) 0 files
      (loop_start w files fs1 (initial cs fs), 0, []) = (False, st4, oc, ufs)"
    by (simp add: loop_run_def initial_def)
  have "move_errors (trace (loop_start w files fs1 (initial cs fs))) = 0"
    by (simp add: loop_start_simps announce_simps initial_def move_errors_def)
  with process_files_accounting[OF p] show ?thesis by simp
qed

lemma quiet_move_errors: "quiet new \<Longrightarrow> move_errors (tr @ new) = move_errors tr"
  by (simp add: quiet_def move_errors_def list_all_iff filter_empty_conv)

section \<open>The counts of a summary\<close>

text \<open>
  Claim C10.  When a run emits a summary, its uncategorized count is the number of scanned
  files that are not skipped for lying under the destination root and that match no enabled
  category.  Nothing in the statement depends on what \<open>handle_uncategorized_files\<close> did with
  them: in the witness the move into \<open>Uncategorized\<close> fails, is logged, and the file is
  counted all the same.
\<close>
theorem uncategorized_count_exact:
  assumes "Finished s \<in> set (trace (snd (run w (initial cs fs))))"
  shows "\<exists>files. scan w fs = Scanned files
           \<and> uncategorized s = length (filter (unmatched w cs) files)"
  using assms
proof (cases rule: run_summary_cases)
  case no_files
  then show ?thesis by (simp add: zero_summary_def)
next
  case (completed files fs1 st4 oc ufs st5)
  from loop_run_uncategorized[OF completed(4)] completed(1,7) show ?thesis by simp
qed


definition misc_fs :: filesystem where
  "misc_fs = \<lparr>entries = [([''s''], Dir), ([''s'', ''x.bin''], File)],
              stat_fails = (\<lambda>p. False),
              write_fails = (\<lambda>p. p = [''d'', ''Uncategorized'', ''x.bin''])\<rparr>"

definition misc_worker :: FileOrganizerWorker where
  "misc_worker = FileOrganizerWorker_init [''s''] (Some [''d'']) False (\<lambda>k. False)"

definition misc_cats :: "FileCategory list" where
  "misc_cats = [FileCategory_init ''Docs'' [''.txt''] ''Docs'']"

theorem uncategorized_count_exact_witness:
  "Finished \<lparr>total_files = 1, organized = 0, uncategorized = 1, categories = []\<rparr>
     \<in> set (trace (snd (run misc_worker (initial misc_cats misc_fs))))
   \<and> LogUpdated (MsgErrorMovingUncategorized ''x.bin''
        (PermissionError [''d'', ''Uncategorized'', ''x.bin'']))
     \<in> set (trace (snd (run misc_worker (initial misc_cats misc_fs))))
   \<and> (\<exists>files. scan misc_worker misc_fs = Scanned files
         \<and> 1 = length (filter (unmatched misc_worker misc_cats) files))"
proof -
  have h: "Finished \<lparr>total_files = 1, organized = 0, uncategorized = 1, categories = []\<rparr>
     \<in> set (trace (snd (run misc_worker (initial misc_cats misc_fs))))" by code_simp
  have e: "LogUpdated (MsgErrorMovingUncategorized ''x.bin''
        (PermissionError [''d'', ''Uncategorized'', ''x.bin'']))
     \<in> set (trace (snd (run misc_worker (initial misc_cats misc_fs))))" by code_simp
  from uncategorized_count_exact[OF h] h e show ?thesis by simp
qed

text \<open>
  Claim C9.  In every emitted summary the scanned files are accounted for exactly once:
  organized, uncategorized, skipped for lying under the destination root, or matched with
  a move that failed (one \<open>Error moving\<close> log entry each).  So organized plus
  uncategorized never exceeds the total and is strictly below it as soon as a file was
  skipped or a matched move failed.  The step of the loop for a matched file whose move
  fails leaves the organized counter, the uncategorized list and the registry untouched,
  and the list that the loop hands on for the \<open>Uncategorized\<close> folder holds the unmatched
  files only.
\<close>
theorem failed_move_counted_nowhere:
  "(Finished s \<in> set (trace (snd (run w (initial cs fs)))) \<longrightarrow>
      (\<exists>files. scan w fs = Scanned files \<and> total_files s = length files
         \<and> organized s + uncategorized s + length (filter (skipped w) files)
              + move_errors (trace (snd (run w (initial cs fs)))) = total_files s
         \<and> organized s + uncategorized s \<le> total_files s
         \<and> (list_ex (skipped w) files \<or> list_ex is_move_error (trace (snd (run w (initial cs fs))))
              \<longrightarrow> organized s + uncategorized s < total_files s)))
   \<and> (\<not> skipped w f \<and> get_category_for_extension (cats st) (extension f) = Some ci
        \<and> \<not> dry_run w
        \<and> \<not> fst (move_file w f ci (emit (StatusUpdated (StProcessing (file_name f)))
                                     (emit (ProgressUpdated (Ratio i n)) st))) \<longrightarrow>
        (\<exists>st'. process_file w n i f (st, oc, ufs) = (st', oc, ufs) \<and> cats st' = cats st
            \<and> move_errors (trace st') = Suc (move_errors (trace st))))
   \<and> (loop_run w files' fs1 (initial cs fs) = (False, st4, oc', ufs') \<longrightarrow>
        ufs' = filter (unmatched w cs) files')"
proof (intro conjI impI)
  assume a: "Finished s \<in> set (trace (snd (run w (initial cs fs))))"
  then show "\<exists>files. scan w fs = Scanned files \<and> total_files s = length files
         \<and> organized s + uncategorized s + length (filter (skipped w) files)
              + move_errors (trace (snd (run w (initial cs fs)))) = total_files s
         \<and> organized s + uncategorized s \<le> total_files s
         \<and> (list_ex (skipped w) files \<or> list_ex is_move_error (trace (snd (run w (initial cs fs))))
              \<longrightarrow> organized s + uncategorized s < total_files s)"
  proof (cases rule: run_summary_cases)
    case no_files
    have "trace (snd (run w (initial cs fs))) = [LogUpdated (MsgStarting (dry_run w)),
        LogUpdated (MsgSource (source_dir w)), LogUpdated (MsgDestination (dest_dir w)),
        StatusUpdated StScanning, LogUpdated MsgNoFiles, Finished zero_summary]"
    proof (cases rule: run_cases[of w "initial cs fs"])
      case no_files
      then show ?thesis by (simp add: announce_simps emit_def initial_def)
    qed (use \<open>scan w fs = Scanned []\<close> in \<open>simp_all add: initial_def\<close>)
    with no_files show ?thesis by (simp add: zero_summary_def move_errors_def)
  next
    case (completed files fs1 st4 oc ufs st5)
    from leftovers_done_frame[OF completed(5)] obtain new2 where
      n2: "trace st5 = trace st4 @ new2" "quiet new2" by auto
    have tr: "trace (snd (run w (initial cs fs))) = trace st4 @ (new2 @ [ProgressUpdated (Percent 100),
        StatusUpdated StComplete, LogUpdated (MsgComplete oc), Finished s])"
      using completed(6,7) n2(1) by (simp add: conclude_simps)
    have "quiet (new2 @ [ProgressUpdated (Percent 100),
        StatusUpdated StComplete, LogUpdated (MsgComplete oc)])"
      using n2(2) by (simp add: quiet_def)
    then have me: "move_errors (trace (snd (run w (initial cs fs)))) = move_errors (trace st4)"
      unfolding tr by (simp add: move_errors_def quiet_def list_all_iff filter_empty_conv)
    note acc = loop_run_accounting[OF completed(4)]
    have sk: "list_ex (skipped w) files \<Longrightarrow> 0 < length (filter (skipped w) files)"
      by (auto simp: list_ex_iff filter_empty_conv)
    have er: "list_ex is_move_error (trace (snd (run w (initial cs fs))))
        \<Longrightarrow> 0 < move_errors (trace st4)"
      unfolding me[symmetric] by (auto simp: list_ex_iff move_errors_def filter_empty_conv)
    have eq: "organized s + uncategorized s + length (filter (skipped w) files)
              + move_errors (trace (snd (run w (initial cs fs)))) = total_files s"
      using acc me completed(7) by simp
    then have le: "organized s + uncategorized s \<le> total_files s" by linarith
    have strict: "organized s + uncategorized s < total_files s"
      if d: "list_ex (skipped w) files \<or> list_ex is_move_error (trace (snd (run w (initial cs fs))))"
    proof -
      from d have "0 < length (filter (skipped w) files)
          \<or> 0 < move_errors (trace (snd (run w (initial cs fs))))"
        using sk er me by metis
      with eq show ?thesis by linarith
    qed
    have tf: "total_files s = length files" using completed(7) by simp
    from completed(1) tf eq le strict show ?thesis by blast
  qed
next
  assume a: "\<not> skipped w f \<and> get_category_for_extension (cats st) (extension f) = Some ci
        \<and> \<not> dry_run w
        \<and> \<not> fst (move_file w f ci (emit (StatusUpdated (StProcessing (file_name f)))
                                     (emit (ProgressUpdated (Ratio i n)) st)))"
  let ?st1 = "emit (StatusUpdated (StProcessing (file_name f))) (emit (ProgressUpdated (Ratio i n)) st)"
  obtain st2 where mf: "move_file w f ci ?st1 = (False, st2)"
    using a by (cases "move_file w f ci ?st1") auto
  from a have cl: "get_category_for_extension (cats st) (extension f) = Some ci" by simp
  have en: "enabled (cats st ! ci)" using get_category_enabled[OF cl] by simp
  have st1: "cats ?st1 = cats st" by (simp add: emit_def)
  have pf: "process_file w n i f (st, oc, ufs) = (st2, oc, ufs)"
    using a mf en st1 by (simp add: process_file_def Let_def skipped_def)
  from mf have "cats st2 = cats st \<and> move_errors (trace st2) = Suc (move_errors (trace st))"
    by (cases rule: move_file_cases) (simp_all add: emit_def move_errors_def)
  with pf show "\<exists>st'. process_file w n i f (st, oc, ufs) = (st', oc, ufs) \<and> cats st' = cats st
            \<and> move_errors (trace st') = Suc (move_errors (trace st))" by simp
next
  assume "loop_run w files' fs1 (initial cs fs) = (False, st4, oc', ufs')"
  then show "ufs' = filter (unmatched w cs) files'" by (rule loop_run_uncategorized)
qed

definition clash_fs :: filesystem where
  "clash_fs = plain_fs [([''s''], Dir), ([''s'', ''a.txt''], File), ([''s'', ''o''], Dir),
     ([''s'', ''o'', ''D''], File)]"

definition clash_worker :: FileOrganizerWorker where
  "clash_worker = FileOrganizerWorker_init [''s''] (Some [''s'', ''o'']) False (\<lambda>k. False)"

definition clash_cats :: "FileCategory list" where
  "clash_cats = [FileCategory_init ''Docs'' [''.txt''] ''D'']"

definition clash_a :: FileInfo where
  "clash_a = \<lparr>path = [''s'', ''a.txt''], file_name = ''a.txt'', extension = ''.txt''\<rparr>"

definition clash_d :: FileInfo where
  "clash_d = \<lparr>path = [''s'', ''o'', ''D''], file_name = ''D'', extension = []\<rparr>"

theorem failed_move_counted_nowhere_witness:
  "Finished \<lparr>total_files = 2, organized = 0, uncategorized = 0, categories = []\<rparr>
     \<in> set (trace (snd (run clash_worker (initial clash_cats clash_fs))))
   \<and> scan clash_worker clash_fs = Scanned [clash_a, clash_d]
   \<and> list_ex (skipped clash_worker) [clash_a, clash_d]
   \<and> list_ex is_move_error (trace (snd (run clash_worker (initial clash_cats clash_fs))))
   \<and> move_errors (trace (snd (run clash_worker (initial clash_cats clash_fs)))) = 1
   \<and> \<not> skipped clash_worker clash_a
   \<and> get_category_for_extension (cats (initial clash_cats clash_fs)) (extension clash_a) = Some 0
   \<and> \<not> dry_run clash_worker
   \<and> \<not> fst (move_file clash_worker clash_a 0
           (emit (StatusUpdated (StProcessing (file_name clash_a)))
              (emit (ProgressUpdated (Ratio 0 2)) (initial clash_cats clash_fs))))
   \<and> (\<exists>st'. process_file clash_worker 2 0 clash_a (initial clash_cats clash_fs, 0, []) = (st', 0, [])
         \<and> cats st' = cats (initial clash_cats clash_fs)
         \<and> move_errors (trace st') = Suc (move_errors (trace (initial clash_cats clash_fs))))
   \<and> \<not> fst (loop_run clash_worker [clash_a, clash_d] clash_fs (initial clash_cats clash_fs))
   \<and> snd (snd (snd (loop_run clash_worker [clash_a, clash_d] clash_fs (initial clash_cats clash_fs))))
       = filter (unmatched clash_worker clash_cats) [clash_a, clash_d]"
proof -
  let ?run = "run clash_worker (initial clash_cats clash_fs)"
  let ?s = "\<lparr>total_files = 2, organized = 0, uncategorized = 0, categories = []\<rparr>"
  let ?lr = "loop_run clash_worker [clash_a, clash_d] clash_fs (initial clash_cats clash_fs)"
  note T = failed_move_counted_nowhere[of ?s clash_worker clash_cats clash_fs clash_a
      "initial clash_cats clash_fs" 0 0 2 0 "[]" "[clash_a, clash_d]" clash_fs
      "fst (snd ?lr)" "fst (snd (snd ?lr))" "snd (snd (snd ?lr))"]
  have h1: "Finished ?s \<in> set (trace (snd ?run))" by code_simp
  have sc: "scan clash_worker clash_fs = Scanned [clash_a, clash_d]" by code_simp
  have sk: "list_ex (skipped clash_worker) [clash_a, clash_d]" by code_simp
  have er: "list_ex is_move_error (trace (snd ?run))" by code_simp
  from T h1 sc have "organized ?s + uncategorized ?s + length (filter (skipped clash_worker) [clash_a, clash_d])
      + move_errors (trace (snd ?run)) = total_files ?s" by auto
  moreover have "length (filter (skipped clash_worker) [clash_a, clash_d]) = 1" by code_simp
  ultimately have me: "move_errors (trace (snd ?run)) = 1" by simp
  have h2: "\<not> skipped clash_worker clash_a
     \<and> get_category_for_extension (cats (initial clash_cats clash_fs)) (extension clash_a) = Some 0
     \<and> \<not> dry_run clash_worker
     \<and> \<not> fst (move_file clash_worker clash_a 0
           (emit (StatusUpdated (StProcessing (file_name clash_a)))
              (emit (ProgressUpdated (Ratio 0 2)) (initial clash_cats clash_fs))))" by code_simp
  with T have c2: "\<exists>st'. process_file clash_worker 2 0 clash_a (initial clash_cats clash_fs, 0, []) = (st', 0, [])
         \<and> cats st' = cats (initial clash_cats clash_fs)
         \<and> move_errors (trace st') = Suc (move_errors (trace (initial clash_cats clash_fs)))"
    by blast
  have h3: "\<not> fst ?lr" by code_simp
  then have "?lr = (False, fst (snd ?lr), fst (snd (snd ?lr)), snd (snd (snd ?lr)))"
    by (cases ?lr) simp
  with T have c3: "snd (snd (snd ?lr)) = filter (unmatched clash_worker clash_cats) [clash_a, clash_d]"
    by blast
  from h1 sc sk er me h2 c2 h3 c3 show ?thesis by blast
qed

section \<open>Cancellation\<close>

lemma FileInfo_init_fails: "(\<exists>e. FileInfo_init fs p = Inl e) \<longleftrightarrow> stat_fails fs p"
  by (simp add: FileInfo_init_def)

lemma scan_files_stopped_iff:
  "scan_files w fs i walk acc = ScanStopped \<longleftrightarrow>
     (\<exists>k<length walk. should_stop w (i + k)
        \<and> (\<forall>j<k. \<not> (is_file fs (walk ! j) \<and> stat_fails fs (walk ! j))))"
proof (induction walk arbitrary: i acc)
  case Nil
  show ?case by simp
next
  case (Cons p rest)
  show ?case
  proof (cases "should_stop w i")
    case True
    then have "\<exists>k<length (p # rest). should_stop w (i + k)
        \<and> (\<forall>j<k. \<not> (is_file fs ((p # rest) ! j) \<and> stat_fails fs ((p # rest) ! j)))"
      by (intro exI[of _ 0]) simp
    with True show ?thesis by simp
  next
    case ns: False
    show ?thesis
    proof (cases "is_file fs p \<and> stat_fails fs p")
      case True
      then have l: "scan_files w fs i (p # rest) acc \<noteq> ScanStopped"
        using ns by (simp add: FileInfo_init_def)
      have "\<not> (\<exists>k<length (p # rest). should_stop w (i + k)
        \<and> (\<forall>j<k. \<not> (is_file fs ((p # rest) ! j) \<and> stat_fails fs ((p # rest) ! j))))"
      proof
        assume "\<exists>k<length (p # rest). should_stop w (i + k)
          \<and> (\<forall>j<k. \<not> (is_file fs ((p # rest) ! j) \<and> stat_fails fs ((p # rest) ! j)))"
        then obtain k where k: "should_stop w (i + k)"
          "\<forall>j<k. \<not> (is_file fs ((p # rest) ! j) \<and> stat_fails fs ((p # rest) ! j))" by blast
        from k(1) ns have "0 < k" by (cases k) auto
        with k(2) have "\<not> (is_file fs ((p # rest) ! 0) \<and> stat_fails fs ((p # rest) ! 0))" by blast
        with True show False by simp
      qed
      with l show ?thesis by simp
    next
      case ok: False
      obtain acc' where step: "scan_files w fs i (p # rest) acc = scan_files w fs (Suc i) rest acc'"
        using ns ok by (cases "is_file fs p") (auto simp: FileInfo_init_def)
      have "(\<exists>k<length (p # rest). should_stop w (i + k)
          \<and> (\<forall>j<k. \<not> (is_file fs ((p # rest) ! j) \<and> stat_fails fs ((p # rest) ! j))))
        \<longleftrightarrow> (\<exists>k<length rest. should_stop w (Suc i + k)
          \<and> (\<forall>j<k. \<not> (is_file fs (rest ! j) \<and> stat_fails fs (rest ! j))))"
      proof
        assume "\<exists>k<length (p # rest). should_stop w (i + k)
          \<and> (\<forall>j<k. \<not> (is_file fs ((p # rest) ! j) \<and> stat_fails fs ((p # rest) ! j)))"
        then obtain k where k: "k < length (p # rest)" "should_stop w (i + k)"
          "\<forall>j<k. \<not> (is_file fs ((p # rest) ! j) \<and> stat_fails fs ((p # rest) ! j))" by blast
        from k(2) ns obtain k' where k': "k = Suc k'" by (cases k) auto
        have "\<forall>j<k'. \<not> (is_file fs (rest ! j) \<and> stat_fails fs (rest ! j))"
        proof (intro allI impI)
          fix j assume "j < k'"
          then have "Suc j < k" using k' by simp
          with k(3) have "\<not> (is_file fs ((p # rest) ! Suc j) \<and> stat_fails fs ((p # rest) ! Suc j))"
            by blast
          then show "\<not> (is_file fs (rest ! j) \<and> stat_fails fs (rest ! j))" by simp
        qed
        with k(1,2) k' show "\<exists>k<length rest. should_stop w (Suc i + k)
          \<and> (\<forall>j<k. \<not> (is_file fs (rest ! j) \<and> stat_fails fs (rest ! j)))"
          by (intro exI[of _ k']) simp
      next
        assume "\<exists>k<length rest. should_stop w (Suc i + k)
          \<and> (\<forall>j<k. \<not> (is_file fs (rest ! j) \<and> stat_fails fs (rest ! j)))"
        then obtain k where k: "k < length rest" "should_stop w (Suc i + k)"
          "\<forall>j<k. \<not> (is_file fs (rest ! j) \<and> stat_fails fs (rest ! j))" by blast
        have "\<forall>j<Suc k. \<not> (is_file fs ((p # rest) ! j) \<and> stat_fails fs ((p # rest) ! j))"
        proof (intro allI impI)
          fix j assume j: "j < Suc k"
          show "\<not> (is_file fs ((p # rest) ! j) \<and> stat_fails fs ((p # rest) ! j))"
          proof (cases j)
            case 0
            with ok show ?thesis by simp
          next
            case (Suc j')
            with j k(3) show ?thesis by simp
          qed
        qed
        with k(1,2) show "\<exists>k<length (p # rest). should_stop w (i + k)
          \<and> (\<forall>j<k. \<not> (is_file fs ((p # rest) ! j) \<and> stat_fails fs ((p # rest) ! j)))"
          by (intro exI[of _ "Suc k"]) simp
      qed
      with step Cons.IH[of "Suc i" acc'] show ?thesis by simp
    qed
  qed
qed

lemma root_ready_unique: "root_ready w st a \<Longrightarrow> root_ready w st b \<Longrightarrow> a = b"
  by (cases "dry_run w") (simp_all add: root_ready_def)

lemma loop_run_stopped_iff:
  "fst (loop_run w files fs1 st)
     \<longleftrightarrow> (\<exists>d<length files. should_stop w (length (rglob (fsys st) (source_dir w)) + d))"
  unfolding loop_run_def using process_files_stopped_iff[of w _ _ 0] by simp

lemma run_aborted_iff:
  "fst (run w st) = Aborted \<longleftrightarrow>
     scan w (fsys st) = ScanStopped
     \<or> (\<exists>files fs1. scan w (fsys st) = Scanned files \<and> files \<noteq> [] \<and> root_ready w st fs1
          \<and> (\<exists>d<length files. should_stop w (length (rglob (fsys st) (source_dir w)) + d)))"
proof (cases rule: run_cases[of w st])
  case scan_stopped
  then show ?thesis by simp
next
  case (scan_failed e)
  then show ?thesis by simp
next
  case no_files
  then show ?thesis by simp
next
  case (root_failed files e fs1)
  have "\<not> root_ready w st fs1'" for fs1'
    using root_failed(3,4) by (simp add: root_ready_def)
  with root_failed show ?thesis by simp
next
  case (loop_stopped files fs1 ls)
  from loop_stopped(4) have "fst (loop_run w files fs1 st)" by simp
  then have "\<exists>d<length files. should_stop w (length (rglob (fsys st) (source_dir w)) + d)"
    by (simp add: loop_run_stopped_iff)
  with loop_stopped show ?thesis by auto
next
  case (leftovers_failed files fs1 st4 oc ufs e st5)
  from leftovers_failed(4) have "\<not> fst (loop_run w files fs1 st)" by simp
  then have "\<not> (\<exists>d<length files. should_stop w (length (rglob (fsys st) (source_dir w)) + d))"
    by (simp add: loop_run_stopped_iff)
  with leftovers_failed show ?thesis by auto
next
  case (completed files fs1 st4 oc ufs st5)
  from completed(4) have "\<not> fst (loop_run w files fs1 st)" by simp
  then have "\<not> (\<exists>d<length files. should_stop w (length (rglob (fsys st) (source_dir w)) + d))"
    by (simp add: loop_run_stopped_iff)
  with completed show ?thesis by auto
qed

lemma summary_only_last:
  assumes "list_all (\<lambda>e. \<not> is_summary e \<and> \<not> is_error e) pre"
  shows "\<forall>k. k < length (pre @ [x]) \<and> is_summary ((pre @ [x]) ! k) \<longrightarrow> Suc k = length (pre @ [x])"
proof (intro allI impI)
  fix k assume k: "k < length (pre @ [x]) \<and> is_summary ((pre @ [x]) ! k)"
  show "Suc k = length (pre @ [x])"
  proof (rule ccontr)
    assume "Suc k \<noteq> length (pre @ [x])"
    with k have lt: "k < length pre" by simp
    then have "(pre @ [x]) ! k = pre ! k" by (simp add: nth_append)
    moreover from assms lt have "\<not> is_summary (pre ! k)" by (simp add: list_all_length)
    ultimately show False using k by simp
  qed
qed

text \<open>
  Claim C6.  A run that returns at a set \<open>should_stop\<close> adds no summary to the signals.
  In every run, whatever its outcome, a summary can only be the last signal added.  The run
  is aborted exactly when the scan returns at a set flag, or when the scan is complete and
  not empty, the destination root is ready, and the flag is found set at one of the reads
  of the processing loop; and the scan returns at a set flag exactly when the flag is found
  set at an entry of the walk before which no \<open>stat\<close> failed.
\<close>
theorem aborted_run_emits_no_summary:
  "(fst (run w st) = Aborted \<longrightarrow>
      (\<exists>new. trace (snd (run w st)) = trace st @ new \<and> list_all (\<lambda>e. \<not> is_summary e) new))
   \<and> (\<exists>new. trace (snd (run w st)) = trace st @ new
         \<and> (\<forall>k. k < length new \<and> is_summary (new ! k) \<longrightarrow> Suc k = length new))
   \<and> (fst (run w st) = Aborted \<longleftrightarrow>
        scan w (fsys st) = ScanStopped
        \<or> (\<exists>files fs1. scan w (fsys st) = Scanned files \<and> files \<noteq> [] \<and> root_ready w st fs1
             \<and> (\<exists>d<length files. should_stop w (length (rglob (fsys st) (source_dir w)) + d))))
   \<and> (scan w (fsys st) = ScanStopped \<longleftrightarrow>
        (\<exists>k<length (rglob (fsys st) (source_dir w)). should_stop w k
           \<and> (\<forall>j<k. \<not> (is_file (fsys st) (rglob (fsys st) (source_dir w) ! j)
                        \<and> stat_fails (fsys st) (rglob (fsys st) (source_dir w) ! j)))))"
proof (intro conjI)
  obtain new where n: "trace (snd (run w st)) = trace st @ new"
    and c: "fst (run w st) = Completed \<Longrightarrow>
           \<exists>pre s. new = pre @ [Finished s] \<and> list_all (\<lambda>e. \<not> is_summary e \<and> \<not> is_error e) pre"
    and a: "fst (run w st) = Aborted \<Longrightarrow> list_all (\<lambda>e. \<not> is_summary e \<and> \<not> is_error e) new"
    and f: "fst (run w st) = Failed \<Longrightarrow>
           \<exists>pre t. new = pre @ [ErrorOccurred t] \<and> list_all (\<lambda>e. \<not> is_summary e \<and> \<not> is_error e) pre"
    by (rule run_trace[of w st]) blast
  show "fst (run w st) = Aborted \<longrightarrow>
      (\<exists>new. trace (snd (run w st)) = trace st @ new \<and> list_all (\<lambda>e. \<not> is_summary e) new)"
  proof
    assume "fst (run w st) = Aborted"
    from a[OF this] have "list_all (\<lambda>e. \<not> is_summary e) new" by (simp add: list_all_iff)
    with n show "\<exists>new. trace (snd (run w st)) = trace st @ new \<and> list_all (\<lambda>e. \<not> is_summary e) new"
      by blast
  qed
  have "\<forall>k. k < length new \<and> is_summary (new ! k) \<longrightarrow> Suc k = length new"
  proof (cases "fst (run w st)")
    case Completed
    from c[OF this] obtain pre s where "new = pre @ [Finished s]"
      "list_all (\<lambda>e. \<not> is_summary e \<and> \<not> is_error e) pre" by blast
    then show ?thesis using summary_only_last by blast
  next
    case Aborted
    from a[OF this] show ?thesis by (auto simp: list_all_length)
  next
    case Failed
    from f[OF this] obtain pre t where "new = pre @ [ErrorOccurred t]"
      "list_all (\<lambda>e. \<not> is_summary e \<and> \<not> is_error e) pre" by blast
    then show ?thesis using summary_only_last by blast
  qed
  with n show "\<exists>new. trace (snd (run w st)) = trace st @ new
         \<and> (\<forall>k. k < length new \<and> is_summary (new ! k) \<longrightarrow> Suc k = length new)" by blast
  show "fst (run w st) = Aborted \<longleftrightarrow>
        scan w (fsys st) = ScanStopped
        \<or> (\<exists>files fs1. scan w (fsys st) = Scanned files \<and> files \<noteq> [] \<and> root_ready w st fs1
             \<and> (\<exists>d<length files. should_stop w (length (rglob (fsys st) (source_dir w)) + d)))"
    by (rule run_aborted_iff)
  show "scan w (fsys st) = ScanStopped \<longleftrightarrow>
        (\<exists>k<length (rglob (fsys st) (source_dir w)). should_stop w k
           \<and> (\<forall>j<k. \<not> (is_file (fsys st) (rglob (fsys st) (source_dir w) ! j)
                        \<and> stat_fails (fsys st) (rglob (fsys st) (source_dir w) ! j))))"
    unfolding scan_def using scan_files_stopped_iff[of w "fsys st" 0] by simp
qed

definition halt_fs :: filesystem where
  "halt_fs = plain_fs [([''s''], Dir), ([''s'', ''a.txt''], File), ([''s'', ''b.txt''], File)]"

definition halt_cats :: "FileCategory list" where
  "halt_cats = [FileCategory_init ''Docs'' [''.txt''] ''Docs'']"

definition halt_worker :: FileOrganizerWorker where
  "halt_worker = FileOrganizerWorker_init [''s''] None False (\<lambda>k. 3 \<le> k)"

definition halt_at_once :: FileOrganizerWorker where
  "halt_at_once = FileOrganizerWorker_init [''s''] None False (\<lambda>k. True)"

theorem aborted_run_emits_no_summary_witness:
  "fst (run halt_worker (initial halt_cats halt_fs)) = Aborted
   \<and> list_all (\<lambda>e. \<not> is_summary e) (trace (snd (run halt_worker (initial halt_cats halt_fs))))
   \<and> is_file (fsys (snd (run halt_worker (initial halt_cats halt_fs))))
        [''s'', ''Organized'', ''Docs'', ''a.txt'']
   \<and> is_file (fsys (snd (run halt_worker (initial halt_cats halt_fs)))) [''s'', ''b.txt'']
   \<and> scan halt_at_once (fsys (initial halt_cats halt_fs)) = ScanStopped
   \<and> fst (run halt_at_once (initial halt_cats halt_fs)) = Aborted
   \<and> list_all (\<lambda>e. \<not> is_summary e) (trace (snd (run halt_at_once (initial halt_cats halt_fs))))"
proof -
  let ?st = "initial halt_cats halt_fs"
  note T = aborted_run_emits_no_summary[of halt_worker ?st]
  note U = aborted_run_emits_no_summary[of halt_at_once ?st]
  have e: "trace ?st = []" by (simp add: initial_def)
  have a: "fst (run halt_worker ?st) = Aborted" by code_simp
  with T e have c1: "list_all (\<lambda>e. \<not> is_summary e) (trace (snd (run halt_worker ?st)))" by auto
  have f1: "is_file (fsys (snd (run halt_worker ?st))) [''s'', ''Organized'', ''Docs'', ''a.txt'']"
    by code_simp
  have f2: "is_file (fsys (snd (run halt_worker ?st))) [''s'', ''b.txt'']" by code_simp
  have s: "scan halt_at_once (fsys ?st) = ScanStopped" by code_simp
  with U have b: "fst (run halt_at_once ?st) = Aborted" by blast
  with U e have c2: "list_all (\<lambda>e. \<not> is_summary e) (trace (snd (run halt_at_once ?st)))" by auto
  from a c1 f1 f2 s b c2 show ?thesis by blast
qed

section \<open>Counts are reset for enabled categories\<close>





lemma completed_move_errors:
  assumes "leftovers_done w ufs st4 st5"
  shows "move_errors (trace (conclude n oc ufs st5)) = move_errors (trace st4)"
proof -
  from leftovers_done_frame[OF assms] obtain new2 where
    n2: "trace st5 = trace st4 @ new2" "quiet new2" by auto
  have "move_errors (trace (conclude n oc ufs st5)) = move_errors (trace st5)"
    by (simp add: conclude_simps move_errors_def)
  also have "\<dots> = move_errors (trace st4)"
    unfolding n2(1) using n2(2) by (rule quiet_move_errors)
  finally show ?thesis .
qed








section \<open>A dry run against a real run\<close>

lemma scan_files_dry_run:
  "scan_files (w\<lparr>dry_run := b\<rparr>) fs i walk acc = scan_files w fs i walk acc"
  by (induction walk arbitrary: i acc) (simp_all split: sum.splits)

lemma scan_dry_run: "scan (w\<lparr>dry_run := b\<rparr>) fs = scan w fs"
  by (simp add: scan_def scan_files_dry_run)

lemma unmatched_dry_run: "unmatched (w\<lparr>dry_run := b\<rparr>) cs = unmatched w cs"
  by (rule ext) (simp add: unmatched_def skipped_def)

lemma routed_to_dry_run: "routed_to (w\<lparr>dry_run := b\<rparr>) cs i = routed_to w cs i"
  by (rule ext) (simp add: routed_to_def skipped_def)

lemma skipped_dry_run: "skipped (w\<lparr>dry_run := b\<rparr>) = skipped w"
  by (rule ext) (simp add: skipped_def)

lemma process_file_dry_errors:
  assumes "process_file w n i f (st, oc, ufs) = (st', oc', ufs')" and "dry_run w"
  shows "move_errors (trace st') = move_errors (trace st)"
  using assms by (cases rule: process_file_cases) (simp_all add: move_errors_def)

lemma process_files_dry_errors:
  assumes "process_files w k n i files (st, oc, ufs) = (b, st', oc', ufs')" and "dry_run w"
  shows "move_errors (trace st') = move_errors (trace st)"
  using assms
proof (induction files arbitrary: i st oc ufs)
  case Nil
  then show ?case by simp
next
  case (Cons f rest)
  show ?case
  proof (cases "should_stop w (k + i)")
    case True
    with Cons.prems show ?thesis by simp
  next
    case False
    obtain st1 oc1 ufs1 where pf: "process_file w n i f (st, oc, ufs) = (st1, oc1, ufs1)"
      by (cases "process_file w n i f (st, oc, ufs)")
    with False Cons.prems(1)
    have r: "process_files w k n (Suc i) rest (st1, oc1, ufs1) = (b, st', oc', ufs')" by simp
    from Cons.IH[OF r Cons.prems(2)] process_file_dry_errors[OF pf Cons.prems(2)]
    show ?thesis by simp
  qed
qed

lemma same_rules_sym: "same_rules a b \<Longrightarrow> same_rules b a"
  by (simp add: same_rules_def)

lemma same_rules_counts_eq:
  assumes "same_rules a b" and "\<And>j. j < length a \<Longrightarrow> file_count (a ! j) = file_count (b ! j)"
  shows "a = b"
proof (rule nth_equalityI)
  show "length a = length b" using assms(1) by (rule same_rules_length)
next
  fix j assume j: "j < length a"
  from same_rules_nth[OF assms(1) j] assms(2)[OF j] show "a ! j = b ! j" by simp
qed

lemma dry_run_keeps_filesystem:
  assumes "dry_run w"
  shows "fsys (snd (run w st)) = fsys st"
proof (cases rule: run_cases[of w st])
  case scan_stopped
  then show ?thesis by (simp add: announce_simps)
next
  case (scan_failed e)
  then show ?thesis by (simp add: announce_simps emit_def)
next
  case no_files
  then show ?thesis by (simp add: announce_simps emit_def)
next
  case (root_failed files e fs1)
  with assms show ?thesis by simp
next
  case (loop_stopped files fs1 ls)
  obtain st4 oc ufs where ls: "ls = (st4, oc, ufs)" by (cases ls)
  from loop_stopped(4) ls have "process_files w (length (rglob (fsys st) (source_dir w)))
      (length files) 0 files (loop_start w files fs1 st, 0, []) = (True, st4, oc, ufs)"
    by (simp add: loop_run_def)
  from process_files_dry_fs[OF this assms] have "fsys st4 = fs1" by (simp add: loop_start_simps)
  moreover from loop_stopped(3) assms have "fs1 = fsys st" by (simp add: root_ready_def)
  ultimately show ?thesis using loop_stopped(5) ls by simp
next
  case (leftovers_failed files fs1 st4 oc ufs e st5)
  with assms show ?thesis by simp
next
  case (completed files fs1 st4 oc ufs st5)
  from completed(4) have "process_files w (length (rglob (fsys st) (source_dir w)))
      (length files) 0 files (loop_start w files fs1 st, 0, []) = (False, st4, oc, ufs)"
    by (simp add: loop_run_def)
  from process_files_dry_fs[OF this assms] have "fsys st4 = fs1" by (simp add: loop_start_simps)
  moreover from completed(3) assms have "fs1 = fsys st" by (simp add: root_ready_def)
  moreover from completed(5) assms have "st5 = st4" by (simp add: leftovers_done_def)
  ultimately show ?thesis using completed(6) by (simp add: conclude_simps)
qed

lemma dry_run_same_summary:
  assumes fin: "Finished sr \<in> set (trace (snd (run (w\<lparr>dry_run := False\<rparr>) (initial cs fs))))"
    and ok: "move_errors (trace (snd (run (w\<lparr>dry_run := False\<rparr>) (initial cs fs)))) = 0"
  shows "Finished sr \<in> set (trace (snd (run (w\<lparr>dry_run := True\<rparr>) (initial cs fs))))"
proof -
  let ?wr = "w\<lparr>dry_run := False\<rparr>" and ?wd = "w\<lparr>dry_run := True\<rparr>"
  let ?st = "initial cs fs"
  have sc: "scan ?wd fs = scan ?wr fs" by (simp add: scan_dry_run)
  have fs0: "fsys ?st = fs" by (simp add: initial_def)
  from fin show ?thesis
  proof (cases rule: run_summary_cases)
    case no_files
    with sc have s0: "scan ?wd (fsys ?st) = Scanned []" by (simp add: fs0)
    have "run ?wd ?st = (Completed, emit (Finished zero_summary)
        (emit (LogUpdated MsgNoFiles) (announce ?wd ?st)))"
      by (cases rule: run_cases[of ?wd ?st]) (use s0 in simp_all)
    with no_files(2) show ?thesis by (simp add: emit_def)
  next
    case (completed files fs1 st4 oc ufs st5)
    with sc have s0: "scan ?wd (fsys ?st) = Scanned files" by (simp add: fs0)
    from completed(4) have nr: "\<not> fst (loop_run ?wr files fs1 ?st)" by simp
    have stop_eq: "fst (loop_run ?wd files fs1' ?st) = fst (loop_run ?wr files fs1 ?st)" for fs1'
      by (simp add: loop_run_stopped_iff)
    have pr: "process_files ?wr (length (rglob fs (source_dir w))) (length files) 0 files
        (loop_start ?wr files fs1 ?st, 0, []) = (False, st4, oc, ufs)"
      using completed(4) by (simp add: loop_run_def initial_def)
    have er: "move_errors (trace st4) = 0"
      using ok completed(6) completed_move_errors[OF completed(5)] by simp
    have e0: "move_errors (trace (loop_start ?wr files fs1 ?st)) = 0"
      by (simp add: loop_start_simps announce_simps initial_def move_errors_def)
    show ?thesis
    proof (cases rule: run_cases[of ?wd ?st])
      case scan_stopped
      with s0 show ?thesis by simp
    next
      case (scan_failed e)
      with s0 show ?thesis by simp
    next
      case no_files
      with s0 completed(2) show ?thesis by simp
    next
      case (root_failed files' e fs1')
      then show ?thesis by simp
    next
      case (loop_stopped files' fs1' ls)
      with s0 have "fst (loop_run ?wd files fs1' ?st)" by simp
      with stop_eq nr show ?thesis by simp
    next
      case (leftovers_failed files' fs1' st4' oc' ufs' e st5')
      then show ?thesis by simp
    next
      case c: (completed files' fs1' st4' oc' ufs' st5')
      from c(1) s0 have ff: "files' = files" by simp
      have pd: "process_files ?wd (length (rglob fs (source_dir w))) (length files) 0 files
          (loop_start ?wd files fs1' ?st, 0, []) = (False, st4', oc', ufs')"
        using c(4) ff by (simp add: loop_run_def initial_def)
      have d: "dry_run ?wd" by simp
      have u: "ufs' = ufs"
        using loop_run_uncategorized[OF completed(4)] loop_run_uncategorized[OF c(4)] ff
        by (simp add: unmatched_dry_run)
      have ed: "move_errors (trace st4') = 0"
        using process_files_dry_errors[OF pd d]
        by (simp add: loop_start_simps announce_simps initial_def move_errors_def)
      have "oc' = oc"
        using loop_run_accounting[OF completed(4)] loop_run_accounting[OF c(4)] ff u er ed
        by (simp add: skipped_dry_run)
      have srr: "same_rules cs (cats (loop_start ?wr files fs1 ?st))"
        and srd: "same_rules cs (cats (loop_start ?wd files fs1' ?st))"
        by (simp_all add: loop_start_simps initial_def same_rules_reset)
      have rr: "same_rules cs (cats st4)" using pr srr by (rule process_files_rules)
      have rd: "same_rules cs (cats st4')" using pd srd by (rule process_files_rules)
      have len: "length (cats st4) = length cs" using rr by (simp add: same_rules_length)
      have cnt: "file_count (cats st4 ! j) = file_count (cats st4' ! j)" if "j < length (cats st4)" for j
      proof -
        from that len have j: "j < length cs" by simp
        have a: "file_count (cats st4 ! j) = file_count (cats (loop_start ?wr files fs1 ?st) ! j)
            + length (filter (routed_to ?wr cs j) files)"
          using pr srr j by (rule process_files_count_eq) (simp add: er e0)
        have b: "file_count (cats st4' ! j) = file_count (cats (loop_start ?wd files fs1' ?st) ! j)
            + length (filter (routed_to ?wd cs j) files)"
          using pd srd j by (rule process_files_count_eq) simp
        from a b show ?thesis by (simp add: loop_start_simps routed_to_dry_run)
      qed
      have "same_rules (cats st4) (cats st4')"
        using same_rules_sym[OF rr] rd by (rule same_rules_trans)
      then have "cats st4 = cats st4'" using cnt by (rule same_rules_counts_eq)
      moreover from leftovers_done_frame[OF completed(5)] have "cats st5 = cats st4" by simp
      moreover from leftovers_done_frame[OF c(5)] have "cats st5' = cats st4'" by simp
      ultimately have "cats st5' = cats st5" by simp
      with c(6) ff u \<open>oc' = oc\<close> completed(7) show ?thesis by (simp add: conclude_simps)
    qed
  qed
qed

text \<open>
  Claim C4.  A dry run leaves the filesystem exactly as it found it, whatever its outcome:
  no entry is added, removed or renamed.  And when the real run on a filesystem and a
  registry emits a summary and logged no failed move into a category folder, the dry run
  on the same filesystem and registry, with the same reads of \<open>should_stop\<close>, emits the
  very same summary: the same per-category counts, and the same totals.
\<close>
theorem dry_run_matches_real_run:
  "(dry_run w \<longrightarrow> fsys (snd (run w st)) = fsys st)
   \<and> (Finished sr \<in> set (trace (snd (run (w\<lparr>dry_run := False\<rparr>) (initial cs fs))))
        \<and> move_errors (trace (snd (run (w\<lparr>dry_run := False\<rparr>) (initial cs fs)))) = 0 \<longrightarrow>
      Finished sr \<in> set (trace (snd (run (w\<lparr>dry_run := True\<rparr>) (initial cs fs)))))"
  using dry_run_keeps_filesystem dry_run_same_summary by blast

definition pair_fs :: filesystem where
  "pair_fs = plain_fs [([''s''], Dir), ([''s'', ''a.TXT''], File), ([''s'', ''b.jpg''], File)]"

definition pair_cats :: "FileCategory list" where
  "pair_cats = [FileCategory_init ''Documents'' [''.txt''] ''Documents'',
                FileCategory_init ''Images'' [''.jpg''] ''Images'']"

definition pair_worker :: FileOrganizerWorker where
  "pair_worker = FileOrganizerWorker_init [''s''] None True (\<lambda>k. False)"

theorem dry_run_matches_real_run_witness:
  "Finished \<lparr>total_files = 2, organized = 2, uncategorized = 0,
             categories = [(''Documents'', 1), (''Images'', 1)]\<rparr>
     \<in> set (trace (snd (run (pair_worker\<lparr>dry_run := False\<rparr>) (initial pair_cats pair_fs))))
   \<and> move_errors (trace (snd (run (pair_worker\<lparr>dry_run := False\<rparr>) (initial pair_cats pair_fs)))) = 0
   \<and> is_file (fsys (snd (run (pair_worker\<lparr>dry_run := False\<rparr>) (initial pair_cats pair_fs))))
        [''s'', ''Organized'', ''Documents'', ''a.TXT'']
   \<and> Finished \<lparr>total_files = 2, organized = 2, uncategorized = 0,
                categories = [(''Documents'', 1), (''Images'', 1)]\<rparr>
     \<in> set (trace (snd (run (pair_worker\<lparr>dry_run := True\<rparr>) (initial pair_cats pair_fs))))
   \<and> dry_run pair_worker
   \<and> fsys (snd (run pair_worker (initial pair_cats pair_fs))) = fsys (initial pair_cats pair_fs)"
proof -
  let ?s = "\<lparr>total_files = 2, organized = 2, uncategorized = 0,
             categories = [(''Documents'', 1), (''Images'', 1)]\<rparr>"
  let ?st = "initial pair_cats pair_fs"
  note T = dry_run_matches_real_run[of pair_worker ?st ?s pair_cats pair_fs]
  have h1: "Finished ?s \<in> set (trace (snd (run (pair_worker\<lparr>dry_run := False\<rparr>) ?st)))"
    by code_simp
  have h2: "move_errors (trace (snd (run (pair_worker\<lparr>dry_run := False\<rparr>) ?st))) = 0"
    by code_simp
  have f: "is_file (fsys (snd (run (pair_worker\<lparr>dry_run := False\<rparr>) ?st)))
        [''s'', ''Organized'', ''Documents'', ''a.TXT'']" by code_simp
  have d: "dry_run pair_worker" by (simp add: pair_worker_def FileOrganizerWorker_init_def)
  from T h1 h2 have c1: "Finished ?s \<in> set (trace (snd (run (pair_worker\<lparr>dry_run := True\<rparr>) ?st)))"
    by blast
  from T d have c2: "fsys (snd (run pair_worker ?st)) = fsys ?st" by blast
  from h1 h2 f c1 d c2 show ?thesis by blast
qed

section \<open>Which failures end a run\<close>











section \<open>Running twice\<close>





























end
